theory Spec2Isabelle
  imports Main "HOL-Library.Word" "HOL-Library.Sublist" "HOL-Library.Monad_Syntax"
begin

unbundle bit_operations_syntax

section \<open>C character arrays, C strings and the library calls of the two servers\<close>

text \<open>
  A \<^verbatim>\<open>char\<close> array is the list of its bytes; a pointer into it is an offset.
  Every access is checked: \<open>None\<close> stands for an access outside the array, which
  is undefined behaviour in C. The zero byte ends a C string.
\<close>

definition NUL :: char where
  "NUL = CHR 0x00"

definition load :: "char list \<Rightarrow> nat \<Rightarrow> char option" where
  "load a i = (if i < length a then Some (a ! i) else None)"

definition store :: "char list \<Rightarrow> nat \<Rightarrow> char \<Rightarrow> char list option" where
  "store a i c = (if i < length a then Some (a[i := c]) else None)"

fun store_bytes :: "char list \<Rightarrow> nat \<Rightarrow> char list \<Rightarrow> char list option" where
  "store_bytes a i [] = Some a"
| "store_bytes a i (c # cs) =
     (case store a i c of None \<Rightarrow> None | Some a' \<Rightarrow> store_bytes a' (Suc i) cs)"

text \<open>
  \<^verbatim>\<open>char query[256] = "default"\<close>: the literal, then zero bytes up to the declared
  size. \<^verbatim>\<open>char body[512];\<close> has no initialiser: its bytes are whatever the stack
  holds (any bytes at all).
\<close>

definition char_array :: "nat \<Rightarrow> string \<Rightarrow> char list" where
  "char_array n s = s @ replicate (n - length s) NUL"

definition uninit :: "nat \<Rightarrow> char list \<Rightarrow> char list" where
  "uninit n stack = take n (stack @ replicate n NUL)"

text \<open>
  The C string that starts at offset \<open>p\<close> of an array: the bytes before the first
  zero byte at or after \<open>p\<close>. Reading on when the array holds no zero byte there
  leaves the array.
\<close>

definition c_str :: "char list \<Rightarrow> nat \<Rightarrow> string option" where
  "c_str a p =
     (if NUL \<in> set (drop p a) then Some (takeWhile (\<lambda>c. c \<noteq> NUL) (drop p a)) else None)"

text \<open>
  \<^verbatim>\<open>strstr(haystack, needle)\<close>: a pointer to the first occurrence of the needle in
  the C string at \<open>haystack\<close>, or the null pointer.
\<close>

datatype ptr = Null | Ptr nat

fun find_first :: "string \<Rightarrow> string \<Rightarrow> nat option" where
  "find_first needle [] = (if needle = [] then Some 0 else None)"
| "find_first needle (c # cs) =
     (if prefix needle (c # cs) then Some 0 else map_option Suc (find_first needle cs))"

definition strstr :: "char list \<Rightarrow> nat \<Rightarrow> string \<Rightarrow> ptr option" where
  "strstr a p needle =
     do { hay \<leftarrow> c_str a p;
          Some (case find_first needle hay of None \<Rightarrow> Null | Some k \<Rightarrow> Ptr (p + k)) }"

text \<open>
  \<^verbatim>\<open>recv(fd, buf, n, 0)\<close> overwrites the first bytes of \<open>buf\<close> with at most
  \<open>n\<close> of the bytes the peer sent (\<open>data\<close>); a failed call writes nothing,
  as \<open>data = []\<close> does. The servers ignore the return value.
\<close>

definition recv :: "char list \<Rightarrow> nat \<Rightarrow> char list \<Rightarrow> char list" where
  "recv buf n data = (let got = take n data in got @ drop (length got) buf)"

text \<open>
  \<^verbatim>\<open>snprintf(buf, n, ...)\<close> stores at most \<open>n - 1\<close> bytes of the formatted
  text \<open>s\<close> and a zero byte, from offset 0 of \<open>buf\<close>.
\<close>

definition snprintf :: "char list \<Rightarrow> nat \<Rightarrow> string \<Rightarrow> char list option" where
  "snprintf buf n s =
     (if n = 0 then Some buf else store_bytes buf 0 (take (n - 1) s @ [NUL]))"

text \<open>The conversions \<^verbatim>\<open>%d\<close> and \<^verbatim>\<open>%ld\<close>: decimal digits, a minus sign first.\<close>

definition digit_char :: "nat \<Rightarrow> char" where
  "digit_char d = ''0123456789'' ! d"

function show_nat :: "nat \<Rightarrow> string" where
  "show_nat n = (if n < 10 then [digit_char n] else show_nat (n div 10) @ [digit_char (n mod 10)])"
  by pat_completeness auto
termination
  by (relation "measure id") auto

declare show_nat.simps [simp del]

definition show_int :: "int \<Rightarrow> string" where
  "show_int i = (if i < 0 then CHR ''-'' # show_nat (nat (- i)) else show_nat (nat i))"

definition CRLF :: string where
  "CRLF = [CHR 0x0D, CHR 0x0A]"

section \<open>The parameter extraction of both servers\<close>

text \<open>
  The copy loop of \<^verbatim>\<open>main\<close> (search.c lines 92-97, auth.c lines 104-109), with
  \<open>p\<close> the offset of \<^verbatim>\<open>q_param\<close> (\<^verbatim>\<open>u_param\<close>) in \<open>buffer\<close>:
  \<^verbatim>\<open>while (q_param[i] && q_param[i] != ' ' && q_param[i] != '&' && i < 255)
      { query[i] = q_param[i]; i++; }
  query[i] = '\0';\<close>
  The byte \<^verbatim>\<open>q_param[i]\<close> is read before \<^verbatim>\<open>i < 255\<close> is tested.
\<close>

function copy_loop :: "char list \<Rightarrow> nat \<Rightarrow> char list \<Rightarrow> nat \<Rightarrow> char list option" where
  "copy_loop buffer p query i =
     (case load buffer (p + i) of
        None \<Rightarrow> None
      | Some c \<Rightarrow>
          if c \<noteq> NUL \<and> c \<noteq> CHR '' '' \<and> c \<noteq> CHR ''&'' \<and> i < 255
          then (case store query i c of
                  None \<Rightarrow> None
                | Some query' \<Rightarrow> copy_loop buffer p query' (i + 1))
          else store query i NUL)"
  by pat_completeness auto
termination
  by (relation "measure (\<lambda>(buffer, p, query, i). 255 - i)") auto

declare copy_loop.simps [simp del]

text \<open>search.c, lines 85-99: the result is the array \<^verbatim>\<open>query\<close>.\<close>

definition search_extract :: "char list \<Rightarrow> char list option" where
  "search_extract buffer =
     do { query_start \<leftarrow> strstr buffer 0 ''GET '';
          let query = char_array 256 ''default'';
          case query_start of
            Null \<Rightarrow> Some query
          | Ptr g \<Rightarrow>
              do { q_param \<leftarrow> strstr buffer g ''q='';
                   case q_param of
                     Null \<Rightarrow> Some query
                   | Ptr q \<Rightarrow> copy_loop buffer (q + 2) query 0 } }"

text \<open>auth.c, lines 97-111: the result is the array \<^verbatim>\<open>user\<close>.\<close>

definition auth_extract :: "char list \<Rightarrow> char list option" where
  "auth_extract buffer =
     do { user_start \<leftarrow> strstr buffer 0 ''GET '';
          let user = char_array 256 ''anonymous'';
          case user_start of
            Null \<Rightarrow> Some user
          | Ptr g \<Rightarrow>
              do { u_param \<leftarrow> strstr buffer g ''user='';
                   case u_param of
                     Null \<Rightarrow> Some user
                   | Ptr u \<Rightarrow> copy_loop buffer (u + 5) user 0 } }"

text \<open>
  \<^verbatim>\<open>char buffer[1024] = {0}; recv(client_socket, buffer, sizeof(buffer) - 1, 0);\<close>
\<close>

definition request_buffer :: "char list \<Rightarrow> char list" where
  "request_buffer data = recv (char_array 1024 []) 1023 data"

text \<open>
  The parameter a server extracts from the bytes of one connection: the C string in
  \<^verbatim>\<open>query\<close> (\<^verbatim>\<open>user\<close>) when the extraction is over.
\<close>

definition search_param :: "char list \<Rightarrow> string option" where
  "search_param data = do { query \<leftarrow> search_extract (request_buffer data); c_str query 0 }"

definition auth_param :: "char list \<Rightarrow> string option" where
  "auth_param data = do { user \<leftarrow> auth_extract (request_buffer data); c_str user 0 }"

section \<open>The response of the Query Responder (search.c)\<close>

text \<open>
  \<^verbatim>\<open>pid_t\<close> is a 32-bit \<^verbatim>\<open>int\<close>, \<^verbatim>\<open>time_t\<close> and \<^verbatim>\<open>long\<close> are 64 bits wide
  (LP64); \<^verbatim>\<open>%d\<close> and \<^verbatim>\<open>%ld\<close> print their signed values.
\<close>

definition search_json :: "string \<Rightarrow> 32 word \<Rightarrow> 64 word \<Rightarrow> string" where
  \<open>search_json query pid t =
     ''{"query": "'' @ query
       @ ''", "results": ["result1", "result2", "result3"], "pid": '' @ show_int (sint pid)
       @ '', "timestamp": '' @ show_int (sint t) @ ''}''\<close>

text \<open>The second format string of \<^verbatim>\<open>send_response\<close>, the same in both files.\<close>

definition http_response :: "nat \<Rightarrow> string \<Rightarrow> string" where
  "http_response n body =
     ''HTTP/1.1 200 OK'' @ CRLF
       @ ''Content-Type: application/json'' @ CRLF
       @ ''Content-Length: '' @ show_int (int n) @ CRLF
       @ ''Connection: close'' @ CRLF
       @ CRLF
       @ body"

text \<open>
  search.c, lines 15-33. \<open>stack\<close> is what the stack holds where \<^verbatim>\<open>body\<close> and
  \<^verbatim>\<open>response\<close> are allocated, \<open>t\<close> is the value of \<^verbatim>\<open>time(NULL)\<close>. The result
  is the byte sequence handed to \<^verbatim>\<open>send\<close>: \<^verbatim>\<open>strlen(response)\<close> bytes of
  \<^verbatim>\<open>response\<close>.
\<close>

definition search_send_response ::
    "char list \<Rightarrow> 32 word \<Rightarrow> 64 word \<Rightarrow> char list \<Rightarrow> string option" where
  "search_send_response stack pid t query =
     do { q \<leftarrow> c_str query 0;
          body \<leftarrow> snprintf (uninit 512 stack) 512 (search_json q pid t);
          b \<leftarrow> c_str body 0;
          response \<leftarrow> snprintf (uninit 1024 (drop 512 stack)) 1024 (http_response (length b) b);
          c_str response 0 }"

section \<open>The token and the response of the Token Issuer (auth.c)\<close>

text \<open>
  \<^verbatim>\<open>rand\<close> belongs to the C library: \<open>R s k\<close> stands for the value of call number
  \<open>k\<close> (from 0) after \<^verbatim>\<open>srand(s)\<close>, an \<^verbatim>\<open>int\<close> between 0 and
  \<^verbatim>\<open>RAND_MAX\<close>. The generator's state is the seed and the number of calls made.
\<close>

record rng =
  seed :: "32 word"
  calls :: nat

definition srand :: "32 word \<Rightarrow> rng" where
  "srand s = \<lparr>seed = s, calls = 0\<rparr>"

definition rand :: "(32 word \<Rightarrow> nat \<Rightarrow> nat) \<Rightarrow> rng \<Rightarrow> nat \<times> rng" where
  "rand R g = (R (seed g) (calls g), g\<lparr>calls := Suc (calls g)\<rparr>)"

text \<open>
  \<^verbatim>\<open>const char charset[] = "abc...789";\<close> has 63 bytes, the last one zero.
  \<open>pick r\<close> is \<^verbatim>\<open>charset[r % (sizeof(charset) - 1)]\<close> for the value \<open>r\<close>
  of \<^verbatim>\<open>rand()\<close> (auth.c, line 18).
\<close>

definition charset :: "char list" where
  "charset = char_array 63 ''abcdefghijklmnopqrstuvwxyzABCDEFGHIJKLMNOPQRSTUVWXYZ0123456789''"

definition pick :: "nat \<Rightarrow> char option" where
  "pick r = load charset (r mod (length charset - 1))"

text \<open>
  auth.c, lines 15-21: \<^verbatim>\<open>for (int i = 0; i < len - 1; i++) token[i] = charset[...];
  token[len - 1] = '\0';\<close>
\<close>

function gen_loop ::
    "(32 word \<Rightarrow> nat \<Rightarrow> nat) \<Rightarrow> rng \<Rightarrow> char list \<Rightarrow> int \<Rightarrow> nat \<Rightarrow> (char list \<times> rng) option" where
  "gen_loop R g token len i =
     (if int i < len - 1
      then (case rand R g of
              (r, g') \<Rightarrow>
                do { c \<leftarrow> pick r;
                     token' \<leftarrow> store token i c;
                     gen_loop R g' token' len (i + 1) })
      else Some (token, g))"
  by pat_completeness auto
termination
  by (relation "measure (\<lambda>(R, g, token, len, i). nat (len - 1) - i)") auto

declare gen_loop.simps [simp del]

definition generate_token ::
    "(32 word \<Rightarrow> nat \<Rightarrow> nat) \<Rightarrow> rng \<Rightarrow> char list \<Rightarrow> int \<Rightarrow> (char list \<times> rng) option" where
  "generate_token R g token len =
     do { (token', g') \<leftarrow> gen_loop R g token len 0;
          token'' \<leftarrow> (if len - 1 < 0 then None else store token' (nat (len - 1)) NUL);
          Some (token'', g') }"

definition auth_json :: "string \<Rightarrow> string \<Rightarrow> 32 word \<Rightarrow> 64 word \<Rightarrow> string" where
  \<open>auth_json user token pid e =
     ''{"user": "'' @ user @ ''", "token": "'' @ token
       @ ''", "pid": '' @ show_int (sint pid)
       @ '', "expires": '' @ show_int (sint e) @ ''}''\<close>

text \<open>
  auth.c, lines 23-44. The expiry is \<^verbatim>\<open>time(NULL) + 3600\<close> in 64-bit arithmetic.
  The result is the byte sequence handed to \<^verbatim>\<open>send\<close> and the generator's new
  state.
\<close>

definition auth_send_response ::
    "(32 word \<Rightarrow> nat \<Rightarrow> nat) \<Rightarrow> char list \<Rightarrow> 32 word \<Rightarrow> 64 word \<Rightarrow> rng \<Rightarrow> char list
       \<Rightarrow> (string \<times> rng) option" where
  "auth_send_response R stack pid t g user =
     do { (token, g') \<leftarrow> generate_token R g (uninit 33 stack) 33;
          u \<leftarrow> c_str user 0;
          tk \<leftarrow> c_str token 0;
          body \<leftarrow> snprintf (uninit 512 (drop 33 stack)) 512 (auth_json u tk pid (t + 3600));
          b \<leftarrow> c_str body 0;
          response \<leftarrow> snprintf (uninit 1024 (drop 545 stack)) 1024 (http_response (length b) b);
          sent \<leftarrow> c_str response 0;
          Some (sent, g') }"

section \<open>The two \<^verbatim>\<open>main\<close> functions\<close>

text \<open>
  A run of \<^verbatim>\<open>main\<close> is the sequence of the calls it makes to the system and to
  the standard streams. \<^verbatim>\<open>perror(s)\<close> writes \<open>s\<close>, a colon and the system's
  message for \<^verbatim>\<open>errno\<close> to standard error. The system's answers are inputs:
  \<open>os_startup\<close> holds the values returned before the loop, a \<open>conn\<close> the value
  one \<^verbatim>\<open>accept\<close> call returns and, for an accepted connection, the bytes the
  peer sends, the clock and the contents of the stack. A \<open>turn\<close> of the loop adds
  what \<^verbatim>\<open>send\<close> meets: both files call it with flags 0 and leave \<^verbatim>\<open>SIGPIPE\<close> at
  its default action, so when the peer has reset the connection (\<open>sigpipe\<close>) the
  signal ends the process inside \<^verbatim>\<open>send\<close>. A run ends with \<open>Exit n\<close> for
  \<^verbatim>\<open>exit(n)\<close>, is \<open>Killed\<close> by that signal, or is still in its \<open>Loop\<close>, at an
  \<^verbatim>\<open>accept\<close> call.
\<close>

datatype call =
    Stderr string
  | Stdout string
  | Perror string
  | Signal string
  | Srand "32 word"
  | Socket
  | Setsockopt
  | Bind "32 word"
  | Listen nat
  | Accept int
  | Recv int
  | Send int string
  | Close int

datatype outcome = Exit int | Loop | Killed

record os_startup =
  atoi_ret :: "32 word"
  socket_ret :: int
  setsockopt_ret :: int
  bind_ret :: int
  listen_ret :: int

record conn =
  accept_ret :: int
  peer_bytes :: "char list"
  clock :: "64 word"
  junk :: "char list"

record turn = conn +
  sigpipe :: bool

text \<open>
  \<^verbatim>\<open>argc\<close> is the length of \<open>argv\<close>. With an empty \<open>argv\<close> the pointer
  \<^verbatim>\<open>argv[0]\<close> is null, which glibc prints as \<^verbatim>\<open>(null)\<close>.
\<close>

definition usage :: "string list \<Rightarrow> string" where
  "usage argv =
     ''Usage: '' @ (case argv of [] \<Rightarrow> ''(null)'' | a # _ \<Rightarrow> a) @ '' <port>\<newline>''"


text \<open>
  search.c, lines 82-101: from \<^verbatim>\<open>recv\<close> to the bytes handed to \<^verbatim>\<open>send\<close>.
  \<open>None\<close>: an access outside an array.
\<close>

definition search_reply :: "32 word \<Rightarrow> 'a conn_scheme \<Rightarrow> string option" where
  "search_reply pid c =
     do { query \<leftarrow> search_extract (request_buffer (peer_bytes c));
          search_send_response (junk c) pid (clock c) query }"

text \<open>
  One turn of the loop of search.c, lines 76-103: its calls, and whether the process
  goes on to the next turn (\<open>Loop\<close>) or is ended inside \<^verbatim>\<open>send\<close>, before
  \<^verbatim>\<open>close\<close>.
\<close>

definition search_iteration :: "32 word \<Rightarrow> turn \<Rightarrow> (call list \<times> outcome) option" where
  "search_iteration pid c =
     (if accept_ret c < 0 then Some ([Accept (accept_ret c)], Loop)
      else
        do { response \<leftarrow> search_reply pid c;
             if sigpipe c
             then Some ([Accept (accept_ret c), Recv (accept_ret c),
                         Send (accept_ret c) response], Killed)
             else Some ([Accept (accept_ret c), Recv (accept_ret c),
                         Send (accept_ret c) response, Close (accept_ret c)], Loop) })"

text \<open>
  \<^verbatim>\<open>while (1)\<close> over the answers to the first \<open>length cs\<close> calls of
  \<^verbatim>\<open>accept\<close>; after them the loop is at its next \<^verbatim>\<open>accept\<close> call, unless the
  process has been ended. The loop has no \<^verbatim>\<open>break\<close> and no \<^verbatim>\<open>return\<close>.
\<close>

fun search_loop :: "32 word \<Rightarrow> turn list \<Rightarrow> (call list \<times> outcome) option" where
  "search_loop pid [] = Some ([], Loop)"
| "search_loop pid (c # cs) =
     do { (t, out) \<leftarrow> search_iteration pid c;
          if out = Loop
          then do { (ts, out') \<leftarrow> search_loop pid cs; Some (t @ ts, out') }
          else Some (t, out) }"


text \<open>
  auth.c, lines 46-86. \<open>t0\<close> is \<^verbatim>\<open>time(NULL)\<close> at line 54; the seed is
  \<^verbatim>\<open>time(NULL) ^ getpid()\<close>, a \<^verbatim>\<open>long\<close>, converted to \<^verbatim>\<open>unsigned int\<close>.
\<close>

definition auth_seed :: "64 word \<Rightarrow> 32 word \<Rightarrow> 32 word" where
  "auth_seed t0 pid = ucast (t0 XOR scast pid)"

definition auth_startup ::
    "string list \<Rightarrow> 32 word \<Rightarrow> 64 word \<Rightarrow> os_startup \<Rightarrow> call list \<times> outcome" where
  "auth_startup argv pid t0 os =
     (if length argv \<noteq> 2 then ([Stderr (usage argv)], Exit 1)
      else if socket_ret os < 0 then
        ([Signal ''SIGTERM'', Signal ''SIGINT'', Srand (auth_seed t0 pid), Socket,
          Perror ''Socket creation failed''], Exit 1)
      else if setsockopt_ret os < 0 then
        ([Signal ''SIGTERM'', Signal ''SIGINT'', Srand (auth_seed t0 pid), Socket, Setsockopt,
          Perror ''Setsockopt failed''], Exit 1)
      else if bind_ret os < 0 then
        ([Signal ''SIGTERM'', Signal ''SIGINT'', Srand (auth_seed t0 pid), Socket, Setsockopt,
          Bind (atoi_ret os), Perror ''Bind failed''], Exit 1)
      else if listen_ret os < 0 then
        ([Signal ''SIGTERM'', Signal ''SIGINT'', Srand (auth_seed t0 pid), Socket, Setsockopt,
          Bind (atoi_ret os), Listen 10, Perror ''Listen failed''], Exit 1)
      else
        ([Signal ''SIGTERM'', Signal ''SIGINT'', Srand (auth_seed t0 pid), Socket, Setsockopt,
          Bind (atoi_ret os), Listen 10,
          Stdout (''Auth CGI process '' @ show_int (sint pid) @ '' listening on port ''
                    @ show_int (sint (atoi_ret os)) @ ''\<newline>'')], Loop))"

text \<open>
  auth.c, lines 94-113: from \<^verbatim>\<open>recv\<close> to the bytes handed to \<^verbatim>\<open>send\<close>, from
  the generator's state \<open>g\<close>.
\<close>

definition auth_reply ::
    "(32 word \<Rightarrow> nat \<Rightarrow> nat) \<Rightarrow> 32 word \<Rightarrow> rng \<Rightarrow> 'a conn_scheme \<Rightarrow> (string \<times> rng) option" where
  "auth_reply R pid g c =
     do { user \<leftarrow> auth_extract (request_buffer (peer_bytes c));
          auth_send_response R (junk c) pid (clock c) g user }"

text \<open>
  One turn of the loop of auth.c, lines 88-115: its calls, the generator's new state,
  and whether the process goes on (\<open>Loop\<close>) or is ended inside \<^verbatim>\<open>send\<close>.
\<close>

definition auth_iteration ::
    "(32 word \<Rightarrow> nat \<Rightarrow> nat) \<Rightarrow> 32 word \<Rightarrow> rng \<Rightarrow> turn \<Rightarrow> (call list \<times> rng \<times> outcome) option" where
  "auth_iteration R pid g c =
     (if accept_ret c < 0 then Some ([Accept (accept_ret c)], g, Loop)
      else
        do { (response, g') \<leftarrow> auth_reply R pid g c;
             if sigpipe c
             then Some ([Accept (accept_ret c), Recv (accept_ret c),
                         Send (accept_ret c) response], g', Killed)
             else Some ([Accept (accept_ret c), Recv (accept_ret c),
                         Send (accept_ret c) response, Close (accept_ret c)], g', Loop) })"

fun auth_loop ::
    "(32 word \<Rightarrow> nat \<Rightarrow> nat) \<Rightarrow> 32 word \<Rightarrow> rng \<Rightarrow> turn list
       \<Rightarrow> (call list \<times> rng \<times> outcome) option" where
  "auth_loop R pid g [] = Some ([], g, Loop)"
| "auth_loop R pid g (c # cs) =
     do { (t, g', out) \<leftarrow> auth_iteration R pid g c;
          if out = Loop
          then do { (ts, g'', out') \<leftarrow> auth_loop R pid g' cs; Some (t @ ts, g'', out') }
          else Some (t, g', out) }"

text \<open>auth.c, \<^verbatim>\<open>main\<close>: the generator that the loop starts from is the one line 54 seeds.\<close>

definition auth_main ::
    "(32 word \<Rightarrow> nat \<Rightarrow> nat) \<Rightarrow> string list \<Rightarrow> 32 word \<Rightarrow> 64 word \<Rightarrow> os_startup \<Rightarrow> turn list
       \<Rightarrow> (call list \<times> outcome) option" where
  "auth_main R argv pid t0 os cs =
     (case auth_startup argv pid t0 os of
        (t, Loop) \<Rightarrow>
          do { (ts, g, out) \<leftarrow> auth_loop R pid (srand (auth_seed t0 pid)) cs;
               Some (t @ ts, out) }
      | (t, out) \<Rightarrow> Some (t, out))"

section \<open>Notions the properties are stated with\<close>

text \<open>
  The text of a request: the bytes \<^verbatim>\<open>recv\<close> stores (at most 1023) up to, but not
  including, the first zero byte among them. A byte of a parameter value is any byte
  but the space and the ampersand.
\<close>

definition request_text :: "char list \<Rightarrow> string" where
  "request_text data = takeWhile (\<lambda>c. c \<noteq> NUL) (take 1023 data)"

definition param_char :: "char \<Rightarrow> bool" where
  "param_char c = (c \<noteq> CHR '' '' \<and> c \<noteq> CHR ''&'')"

text \<open>
  \<open>from_first needle text\<close>: the part of \<open>text\<close> that starts at the first
  occurrence of \<open>needle\<close>; empty when there is none.
\<close>

fun from_first :: "string \<Rightarrow> string \<Rightarrow> string" where
  "from_first needle [] = []"
| "from_first needle (c # cs) =
     (if prefix needle (c # cs) then c # cs else from_first needle cs)"

text \<open>
  The parameter as a function of the request text: when the marker occurs at or after
  the first \<^verbatim>\<open>GET \<close>, the bytes that follow its first occurrence there, up to the
  first space or ampersand or the end of the text, at most 255 of them; the default
  otherwise.
\<close>

definition param_value :: "string \<Rightarrow> string \<Rightarrow> string \<Rightarrow> string" where
  "param_value marker dflt text =
     (if sublist marker (from_first ''GET '' text)
      then take 255 (takeWhile param_char
             (drop (length marker) (from_first marker (from_first ''GET '' text))))
      else dflt)"

text \<open>
  The common shape of \<open>search_extract\<close> and \<open>auth_extract\<close>, which differ in the
  marker, in the number of bytes skipped and in the default.
\<close>

definition extract_with :: "string \<Rightarrow> nat \<Rightarrow> string \<Rightarrow> char list \<Rightarrow> char list option" where
  "extract_with marker skip dflt buffer =
     do { start \<leftarrow> strstr buffer 0 ''GET '';
          let arr = char_array 256 dflt;
          case start of
            Null \<Rightarrow> Some arr
          | Ptr g \<Rightarrow>
              do { m \<leftarrow> strstr buffer g marker;
                   case m of
                     Null \<Rightarrow> Some arr
                   | Ptr q \<Rightarrow> copy_loop buffer (q + skip) arr 0 } }"


text \<open>
  \<open>occurs_at needle text i\<close>: the needle stands at offset \<open>i\<close> of the text.
\<close>

definition occurs_at :: "string \<Rightarrow> string \<Rightarrow> nat \<Rightarrow> bool" where
  "occurs_at needle text i = (take (length needle) (drop i text) = needle)"

text \<open>Decimal digits, and the alphabet \<^verbatim>\<open>[A-Za-z0-9]\<close>.\<close>

definition is_digit :: "char \<Rightarrow> bool" where
  "is_digit c = (c \<in> set ''0123456789'')"

definition alnum :: "char \<Rightarrow> bool" where
  "alnum c = (c \<in> set ''ABCDEFGHIJKLMNOPQRSTUVWXYZabcdefghijklmnopqrstuvwxyz0123456789'')"

text \<open>
  The 32 characters that \<^verbatim>\<open>generate_token\<close> draws from the generator in state
  \<open>g\<close>: character \<open>k\<close> comes from call number \<open>calls g + k\<close>.
\<close>

definition token_of :: "(32 word \<Rightarrow> nat \<Rightarrow> nat) \<Rightarrow> rng \<Rightarrow> string" where
  "token_of R g = map (\<lambda>k. charset ! (R (seed g) (calls g + k) mod 62)) [0..<32]"


definition body_of :: "string \<Rightarrow> string" where
  "body_of r = drop 4 (from_first (CRLF @ CRLF) r)"

text \<open>
  The body that claim C5 states for the Query Responder, letter for letter: the
  result list is written without a space after its commas.
\<close>

definition claimed_search_body :: "string \<Rightarrow> int \<Rightarrow> int \<Rightarrow> string" where
  \<open>claimed_search_body q pid t =
     ''{"query": "'' @ q
       @ ''", "results": ["result1","result2","result3"], "pid": '' @ show_int pid
       @ '', "timestamp": '' @ show_int t @ ''}''\<close>


fun is_accept :: "call \<Rightarrow> bool" where
  "is_accept (Accept _) = True"
| "is_accept _ = False"

fun is_srand :: "call \<Rightarrow> bool" where
  "is_srand (Srand _) = True"
| "is_srand _ = False"

text \<open>
  The state machine of the specification (section 4.4), as a predicate on the calls of
  the loop: listening, then for an accepted connection reading, responding and closing
  on that connection, then listening again; a failed \<^verbatim>\<open>accept\<close> is followed at once
  by the next \<^verbatim>\<open>accept\<close>. The calls may stop after a \<^verbatim>\<open>send\<close>: there the process
  was ended.
\<close>

fun sequential :: "call list \<Rightarrow> bool" where
  "sequential [] = True"
| "sequential (Accept fd # t) =
     (if fd < 0 then sequential t
      else (case t of
              Recv a # Send b r # Close c # t' \<Rightarrow> a = fd \<and> b = fd \<and> c = fd \<and> sequential t'
            | [Recv a, Send b r] \<Rightarrow> a = fd \<and> b = fd
            | _ \<Rightarrow> False))"
| "sequential (_ # t) = False"

text \<open>
  A turn ends the process when its connection is accepted and \<^verbatim>\<open>send\<close> raises
  \<^verbatim>\<open>SIGPIPE\<close>. \<open>turns_made cs\<close>: how many of the turns \<open>cs\<close> the loop starts, all
  of them or those up to the first one that ends the process.
\<close>

definition ends_process :: "turn \<Rightarrow> bool" where
  "ends_process c = (\<not> accept_ret c < 0 \<and> sigpipe c)"

fun turns_made :: "turn list \<Rightarrow> nat" where
  "turns_made [] = 0"
| "turns_made (c # cs) = (if ends_process c then 1 else Suc (turns_made cs))"

text \<open>
  \<open>picks rand_max ch\<close>: how many of the values 0, ..., \<open>rand_max\<close> that
  \<^verbatim>\<open>rand()\<close> can return make \<^verbatim>\<open>generate_token\<close> choose the character \<open>ch\<close>.
  When the values are equally likely, the probability of \<open>ch\<close> is this number
  divided by \<open>rand_max + 1\<close>. \<^verbatim>\<open>RAND_MAX\<close> comes from the C library's headers; it is
  2147483647 in glibc and at least 32767 in any C library.
\<close>

definition picks :: "nat \<Rightarrow> char \<Rightarrow> nat" where
  "picks rand_max ch = length (filter (\<lambda>r. pick r = Some ch) [0..<Suc rand_max])"

section \<open>C strings and the request buffer\<close>

lemma takeWhile_stop: "NUL \<notin> set s \<Longrightarrow> takeWhile (\<lambda>c. c \<noteq> NUL) (s @ NUL # r) = s"
  by (induction s) auto

lemma c_str_at:
  assumes "a = s @ NUL # r" "NUL \<notin> set s" "p \<le> length s"
  shows "c_str a p = Some (drop p s)"
proof -
  have d: "drop p a = drop p s @ NUL # r" using assms by simp
  have "NUL \<notin> set (drop p s)" using assms(2) by (meson in_set_dropD)
  then have "takeWhile (\<lambda>c. c \<noteq> NUL) (drop p s @ NUL # r) = drop p s"
    by (rule takeWhile_stop)
  then show ?thesis by (simp add: c_str_def d)
qed

lemma c_str_value:
  assumes "NUL \<notin> set v"
  shows "c_str (v @ NUL # r) 0 = Some v"
  using c_str_at[OF refl assms, of 0 r] by simp

lemma c_str_char_array:
  assumes "length d < n" "NUL \<notin> set d"
  shows "c_str (char_array n d) 0 = Some d"
proof -
  obtain k where "n - length d = Suc k" using assms(1) by (metis Suc_diff_Suc)
  then have "char_array n d = d @ NUL # replicate k NUL" by (simp add: char_array_def)
  from c_str_at[OF this assms(2), of 0] show ?thesis by simp
qed

lemma request_text_no_NUL: "NUL \<notin> set (request_text d)"
  unfolding request_text_def by (auto dest: set_takeWhileD)

lemma request_text_length: "length (request_text d) \<le> 1023"
proof -
  have "length (request_text d) \<le> length (take 1023 d)"
    unfolding request_text_def by (rule length_takeWhile_le)
  then show ?thesis by simp
qed

lemma split_at_NUL:
  "0 < n \<Longrightarrow> \<exists>r. xs @ replicate n NUL = takeWhile (\<lambda>c. c \<noteq> NUL) xs @ NUL # r"
proof (induction xs)
  case Nil
  then obtain k where "n = Suc k" by (auto simp: gr0_conv_Suc)
  then show ?case by simp
next
  case (Cons x xs)
  then show ?case by (cases "x = NUL") auto
qed

lemma request_buffer_split:
  "\<exists>r. request_buffer d = request_text d @ NUL # r"
proof -
  have b: "request_buffer d = take 1023 d @ replicate (1024 - length (take 1023 d)) NUL"
    by (simp add: request_buffer_def recv_def char_array_def Let_def)
  have "0 < 1024 - length (take 1023 d)" by simp
  from split_at_NUL[OF this] show ?thesis
    unfolding b request_text_def .
qed

section \<open>First occurrences\<close>

lemma find_first_None: "find_first n h = None \<longleftrightarrow> \<not> sublist n h"
  by (induction h) (auto simp: sublist_Cons_right)

lemma find_first_bound: "find_first n h = Some k \<Longrightarrow> k + length n \<le> length h"
proof (induction h arbitrary: k)
  case Nil
  then show ?case by (simp split: if_splits)
next
  case (Cons c cs)
  show ?case
  proof (cases "prefix n (c # cs)")
    case True
    with Cons.prems have "k = 0" by simp
    with True show ?thesis using prefix_length_le by fastforce
  next
    case False
    with Cons.prems obtain j where "find_first n cs = Some j" "k = Suc j" by auto
    with Cons.IH show ?thesis by simp
  qed
qed

lemma from_first_find_first:
  "n \<noteq> [] \<Longrightarrow> from_first n h = (case find_first n h of None \<Rightarrow> [] | Some k \<Rightarrow> drop k h)"
  by (induction h) (auto split: option.splits)

lemma from_first_at:
  assumes "n \<noteq> []" "\<not> sublist n (pre @ butlast n)"
  shows "from_first n (pre @ n @ rest) = n @ rest"
  using assms(2)
proof (induction pre)
  case Nil
  obtain c cs where "n @ rest = c # cs" using assms(1) by (cases n) auto
  moreover have "prefix n (n @ rest)" by simp
  ultimately show ?case by simp
next
  case (Cons x pre)
  have ns: "\<not> sublist n (pre @ butlast n)" and np: "\<not> prefix n (x # pre @ butlast n)"
    using Cons.prems by (auto simp: sublist_Cons_right)
  have "\<not> prefix n (x # pre @ n @ rest)"
  proof
    assume p: "prefix n (x # pre @ n @ rest)"
    have e: "x # pre @ n @ rest = (x # pre @ butlast n) @ (last n # rest)"
      using assms(1) by simp
    have "length n \<le> length (x # pre @ butlast n)" by simp
    with p e have "prefix n (x # pre @ butlast n)"
      by (metis prefix_length_prefix prefixI)
    with np show False ..
  qed
  with Cons.IH[OF ns] show ?case by simp
qed

lemma from_first_absent: "\<not> sublist n h \<Longrightarrow> from_first n h = []"
  by (induction h) (auto simp: sublist_Cons_right)

lemma param_value_no_GET:
  assumes "marker \<noteq> []" "find_first ''GET '' text = None"
  shows "param_value marker dflt text = dflt"
  using assms by (simp add: param_value_def from_first_find_first)

lemma param_value_no_marker:
  assumes "find_first ''GET '' text = Some g" "find_first marker (drop g text) = None"
  shows "param_value marker dflt text = dflt"
  using assms by (simp add: param_value_def from_first_find_first find_first_None)

lemma param_value_found:
  assumes "marker \<noteq> []" "find_first ''GET '' text = Some g"
    "find_first marker (drop g text) = Some k"
  shows "param_value marker dflt text
           = take 255 (takeWhile param_char (drop (g + k + length marker) text))"
proof -
  have "sublist marker (drop g text)"
    using assms(3) find_first_None[of marker "drop g text"] by simp
  then show ?thesis
    using assms by (simp add: param_value_def from_first_find_first add.commute add.left_commute)
qed

section \<open>The copy loop and the extraction\<close>
lemma copy_loop_inv:
  assumes buf: "buffer = h @ s @ NUL # r" and nn: "NUL \<notin> set s"
    and v: "v = take 255 (takeWhile param_char s)"
    and len: "length query = 256" and i: "i \<le> length v"
  shows "copy_loop buffer (length h) query i
           = Some (take i query @ drop i v @ NUL # drop (Suc (length v)) query)"
proof -
  have v255: "length v \<le> 255" using v by simp
  have vt: "length v \<le> length (takeWhile param_char s)" using v by simp
  have vs: "length v \<le> length s"
    using vt length_takeWhile_le[of param_char s] by (rule le_trans)
  show ?thesis
  using len i
proof (induction "length v - i" arbitrary: i query)
  case 0
  then have iv: "i = length v" by simp
  have ld: "load buffer (length h + i) = Some ((s @ NUL # r) ! i)"
    using vs iv by (simp add: load_def buf nth_append)
  have stop: "\<not> ((s @ NUL # r) ! i \<noteq> NUL \<and> (s @ NUL # r) ! i \<noteq> CHR '' '' \<and> (s @ NUL # r) ! i \<noteq> CHR ''&'' \<and> i < 255)"
  proof (cases "length v = 255")
    case True
    with iv show ?thesis by simp
  next
    case False
    with v have e: "length v = length (takeWhile param_char s)" by simp
    show ?thesis
    proof (cases "i < length s")
      case True
      with e iv have "\<not> param_char (s ! i)" by (metis nth_length_takeWhile)
      then show ?thesis using True by (auto simp: nth_append param_char_def)
    next
      case False
      with vs iv have "i = length s" by simp
      then show ?thesis by simp
    qed
  qed
  have st: "store query i NUL = Some (take i query @ NUL # drop (Suc i) query)"
    using 0 iv v255 by (simp add: store_def upd_conv_take_nth_drop)
  have "copy_loop buffer (length h) query i = store query i NUL"
    by (subst copy_loop.simps) (simp only: ld option.case stop if_False)
  with st iv show ?case by simp
next
  case (Suc d)
  then have iv: "i < length v" by simp
  have si: "s ! i = v ! i" using iv v by (simp add: takeWhile_nth)
  have pc: "param_char (s ! i)" using iv vt by (metis nth_mem set_takeWhileD takeWhile_nth order_less_le_trans)
  have nz: "s ! i \<noteq> NUL" using iv vs nn by (metis nth_mem order_less_le_trans)
  have ld: "load buffer (length h + i) = Some (s ! i)"
    using vs iv by (simp add: load_def buf nth_append)
  have st: "store query i (s ! i) = Some (query[i := s ! i])"
    using Suc.prems iv v255 by (simp add: store_def)
  have rec: "copy_loop buffer (length h) (query[i := s ! i]) (i + 1)
      = Some (take (i + 1) (query[i := s ! i]) @ drop (i + 1) v @ NUL # drop (Suc (length v)) (query[i := s ! i]))"
    using Suc.hyps(1)[of "i + 1" "query[i := s ! i]"] Suc.hyps(2) Suc.prems iv by simp
  have t: "take (i + 1) (query[i := s ! i]) = take i query @ [v ! i]"
    using Suc.prems iv v255 si by (simp add: take_Suc_conv_app_nth)
  have dq: "drop (Suc (length v)) (query[i := s ! i]) = drop (Suc (length v)) query"
    using iv by simp
  have dv: "v ! i # drop (i + 1) v = drop i v" using iv by (simp add: Cons_nth_drop_Suc)
  have cont: "s ! i \<noteq> NUL \<and> s ! i \<noteq> CHR '' '' \<and> s ! i \<noteq> CHR ''&'' \<and> i < 255"
    using nz pc iv v255 by (simp add: param_char_def)
  have "copy_loop buffer (length h) query i
      = copy_loop buffer (length h) (query[i := s ! i]) (i + 1)"
    by (subst copy_loop.simps) (simp only: ld option.case cont if_True st simp_thms)
  with rec t dq dv show ?case by (metis append_Cons append_Nil append_assoc)
qed
qed

lemma extract_with_param:
  assumes buf: "buffer = text @ NUL # r" and nn: "NUL \<notin> set text" and mk: "marker \<noteq> []"
    and dl: "length dflt < 256" and dn: "NUL \<notin> set dflt"
  shows "\<exists>arr. extract_with marker (length marker) dflt buffer = Some arr \<and> length arr = 256
           \<and> c_str arr 0 = Some (param_value marker dflt text)"
proof -
  let ?arr = "char_array 256 dflt"
  have la: "length ?arr = 256" using dl by (simp add: char_array_def)
  have ca: "c_str ?arr 0 = Some dflt" using dl dn by (rule c_str_char_array)
  have s0: "c_str buffer 0 = Some text" using c_str_at[OF buf nn, of 0] by simp
  show ?thesis
  proof (cases "find_first ''GET '' text")
    case None
    then show ?thesis using la ca s0 param_value_no_GET[OF mk None]
      by (simp add: extract_with_def strstr_def)
  next
    case (Some g)
    from find_first_bound[OF this] have g: "g \<le> length text" by simp
    have sg: "c_str buffer g = Some (drop g text)" using buf nn g by (rule c_str_at)
    show ?thesis
    proof (cases "find_first marker (drop g text)")
      case None
      then show ?thesis using la ca s0 sg Some param_value_no_marker[OF Some None]
        by (simp add: extract_with_def strstr_def)
    next
      case (Some k)
      let ?q = "g + k + length marker"
      from find_first_bound[OF Some] g have q: "?q \<le> length text" by simp
      let ?s = "drop ?q text"
      let ?v = "take 255 (takeWhile param_char ?s)"
      have b: "buffer = take ?q text @ ?s @ NUL # r" using buf by simp
      have ns: "NUL \<notin> set ?s" using nn by (meson in_set_dropD)
      have lh: "length (take ?q text) = ?q" using q by simp
      from copy_loop_inv[OF b ns refl la, of 0]
      have cl: "copy_loop buffer ?q ?arr 0 = Some (?v @ NUL # drop (Suc (length ?v)) ?arr)"
        unfolding lh by simp
      have nv: "NUL \<notin> set ?v" using ns by (meson in_set_takeD set_takeWhileD)
      have lv: "length ?v \<le> 255" by simp
      then have ll: "length (?v @ NUL # drop (Suc (length ?v)) ?arr) = 256"
        using la by simp
      have "extract_with marker (length marker) dflt buffer = copy_loop buffer ?q ?arr 0"
        using s0 sg \<open>find_first ''GET '' text = Some g\<close> Some
        by (simp add: extract_with_def strstr_def add.assoc)
      moreover have "param_value marker dflt text = ?v"
        using \<open>find_first ''GET '' text = Some g\<close> Some by (rule param_value_found[OF mk])
      ultimately show ?thesis using cl ll c_str_value[OF nv] by simp
    qed
  qed
qed

lemma search_extract_eq: "search_extract = extract_with ''q='' 2 ''default''"
  by (rule ext) (simp only: search_extract_def extract_with_def)

lemma auth_extract_eq: "auth_extract = extract_with ''user='' 5 ''anonymous''"
  by (rule ext) (simp only: auth_extract_def extract_with_def)

lemma search_param_eq:
  "search_param d = Some (param_value ''q='' ''default'' (request_text d))"
proof -
  obtain r where b: "request_buffer d = request_text d @ NUL # r"
    using request_buffer_split by blast
  have "NUL \<notin> set ''default''" by (simp add: NUL_def)
  have l: "length ''q='' = 2" by simp
  have "length ''default'' < 256" by simp
  from extract_with_param[OF b request_text_no_NUL _ this \<open>NUL \<notin> set ''default''\<close>, of "''q=''"]
  obtain arr where "extract_with ''q='' 2 ''default'' (request_buffer d) = Some arr"
    and "c_str arr 0 = Some (param_value ''q='' ''default'' (request_text d))"
    unfolding l by blast
  then show ?thesis by (simp add: search_param_def search_extract_eq)
qed

lemma auth_param_eq:
  "auth_param d = Some (param_value ''user='' ''anonymous'' (request_text d))"
proof -
  obtain r where b: "request_buffer d = request_text d @ NUL # r"
    using request_buffer_split by blast
  have "NUL \<notin> set ''anonymous''" by (simp add: NUL_def)
  have l: "length ''user='' = 5" by simp
  have "length ''anonymous'' < 256" by simp
  from extract_with_param[OF b request_text_no_NUL _ this \<open>NUL \<notin> set ''anonymous''\<close>, of "''user=''"]
  obtain arr where "extract_with ''user='' 5 ''anonymous'' (request_buffer d) = Some arr"
    and "c_str arr 0 = Some (param_value ''user='' ''anonymous'' (request_text d))"
    unfolding l by blast
  then show ?thesis by (simp add: auth_param_def auth_extract_eq)
qed

lemma sublist_from_first: "sublist m (from_first n h) \<Longrightarrow> sublist m h"
  by (induction h) (auto simp: sublist_Cons_right split: if_splits)

lemma param_value_at:
  assumes mk: "marker \<noteq> []"
    and g: "\<not> sublist ''GET '' (pre @ ''GET'')"
    and m: "\<not> sublist marker (''GET '' @ mid @ butlast marker)"
  shows "param_value marker dflt (pre @ ''GET '' @ mid @ marker @ rest)
           = take 255 (takeWhile param_char rest)"
proof -
  have "\<not> sublist ''GET '' (pre @ butlast ''GET '')" using g by simp
  then have f1: "from_first ''GET '' (pre @ ''GET '' @ mid @ marker @ rest)
                   = ''GET '' @ mid @ marker @ rest"
    by (rule from_first_at[rotated]) simp
  have "\<not> sublist marker ((''GET '' @ mid) @ butlast marker)" using m by simp
  then have "from_first marker ((''GET '' @ mid) @ marker @ rest) = marker @ rest"
    by (rule from_first_at[OF mk])
  then have f2: "from_first marker (''GET '' @ mid @ marker @ rest) = marker @ rest"
    by simp
  have s: "sublist marker (''GET '' @ mid @ marker @ rest)"
    by (metis append_assoc sublist_appendI)
  show ?thesis unfolding param_value_def f1 f2 using s by simp
qed

lemma param_value_absent:
  assumes "marker \<noteq> []" "\<not> sublist ''GET '' text \<or> \<not> sublist marker text"
  shows "param_value marker dflt text = dflt"
proof -
  have "\<not> sublist marker (from_first ''GET '' text)"
    using assms from_first_absent[of "''GET ''" "text"] sublist_from_first[of marker "''GET ''" "text"]
    by auto
  then show ?thesis by (simp add: param_value_def)
qed

section \<open>Decimal output and stores\<close>

lemma digit_char_is_digit: "d < 10 \<Longrightarrow> is_digit (digit_char d)"
proof -
  assume "d < 10"
  then have "d \<in> {0, 1, 2, 3, 4, 5, 6, 7, 8, 9}" by auto
  then show ?thesis by (auto simp: digit_char_def is_digit_def)
qed

lemma show_nat_digits: "list_all is_digit (show_nat n)"
proof (induction n rule: show_nat.induct)
  case (1 n)
  show ?case
  proof (cases "n < 10")
    case True
    then show ?thesis by (subst show_nat.simps) (simp add: digit_char_is_digit)
  next
    case False
    with 1 have "list_all is_digit (show_nat (n div 10))" by simp
    moreover have "is_digit (digit_char (n mod 10))" by (simp add: digit_char_is_digit)
    ultimately show ?thesis using False by (subst show_nat.simps) simp
  qed
qed

lemma show_nat_length: "0 < k \<Longrightarrow> n < 10 ^ k \<Longrightarrow> length (show_nat n) \<le> k"
proof (induction k arbitrary: n)
  case 0
  then show ?case by simp
next
  case (Suc k)
  show ?case
  proof (cases "n < 10")
    case True
    then show ?thesis by (subst show_nat.simps) simp
  next
    case False
    then have k: "0 < k" using Suc.prems by (cases k) auto
    have "n div 10 < 10 ^ k" using Suc.prems by (simp add: less_mult_imp_div_less mult.commute)
    from Suc.IH[OF k this] show ?thesis using False by (subst show_nat.simps) simp
  qed
qed

lemma show_nat_nonempty: "show_nat n \<noteq> []"
  by (subst show_nat.simps) simp

lemma is_digit_not_NUL: "is_digit c \<Longrightarrow> c \<noteq> NUL"
  by (auto simp: is_digit_def NUL_def)

lemma show_nat_no_NUL: "NUL \<notin> set (show_nat n)"
  using show_nat_digits[of n] is_digit_not_NUL by (auto simp: list_all_iff)

lemma show_int_no_NUL: "NUL \<notin> set (show_int i)"
  using show_nat_no_NUL by (auto simp: show_int_def NUL_def)

lemma show_int_length:
  assumes "0 < k" "\<bar>i\<bar> < 10 ^ k"
  shows "length (show_int i) \<le> Suc k"
proof -
  have "nat \<bar>i\<bar> < 10 ^ k" using assms(2) by (simp add: nat_less_iff)
  from show_nat_length[OF assms(1) this]
  show ?thesis by (auto simp: show_int_def abs_if split: if_splits)
qed

lemma show_int_pid_length: "length (show_int (sint (pid :: 32 word))) \<le> 11"
proof -
  have "- (2 ^ 31) \<le> sint pid" "sint pid < 2 ^ 31"
    using sint_ge[of pid] sint_lt[of pid] by simp_all
  then have "\<bar>sint pid\<bar> < 10 ^ 10" by simp
  from show_int_length[OF _ this] show ?thesis by simp
qed

lemma show_int_time_length: "length (show_int (sint (t :: 64 word))) \<le> 20"
proof -
  have "- (2 ^ 63) \<le> sint t" "sint t < 2 ^ 63"
    using sint_ge[of t] sint_lt[of t] by simp_all
  then have "\<bar>sint t\<bar> < 10 ^ 19" by simp
  from show_int_length[OF _ this] show ?thesis by simp
qed

lemma show_int_small_length: "n < 1000 \<Longrightarrow> length (show_int (int n)) \<le> 3"
  using show_nat_length[of 3 n] by (simp add: show_int_def)

lemma length_uninit: "length (uninit n stack) = n"
  by (simp add: uninit_def)

lemma store_bytes_fits:
  "i + length cs \<le> length a \<Longrightarrow>
     store_bytes a i cs = Some (take i a @ cs @ drop (i + length cs) a)"
proof (induction cs arbitrary: a i)
  case Nil
  then show ?case by simp
next
  case (Cons c cs)
  then have i: "i < length a" by simp
  have "store_bytes (a[i := c]) (Suc i) cs
          = Some (take (Suc i) (a[i := c]) @ cs @ drop (Suc i + length cs) (a[i := c]))"
    using Cons.prems by (intro Cons.IH) simp
  moreover have "take (Suc i) (a[i := c]) = take i a @ [c]"
    using i by (simp add: take_Suc_conv_app_nth)
  moreover have "drop (Suc i + length cs) (a[i := c]) = drop (Suc i + length cs) a"
    by simp
  ultimately show ?case using i by (simp add: store_def)
qed

lemma snprintf_in_bounds:
  assumes "n \<le> length buf"
  shows "\<exists>b. snprintf buf n s = Some b \<and> length b = length buf"
proof (cases "n = 0")
  case True
  then show ?thesis by (simp add: snprintf_def)
next
  case False
  have "0 + length (take (n - 1) s @ [NUL]) \<le> length buf" using assms False by simp
  from store_bytes_fits[OF this] show ?thesis using False assms
    by (simp add: snprintf_def)
qed

lemma snprintf_fits:
  assumes "length buf = n" "length s < n" "NUL \<notin> set s"
  shows "\<exists>b. snprintf buf n s = Some b \<and> c_str b 0 = Some s"
proof -
  have n: "n \<noteq> 0" using assms(2) by simp
  have t: "take (n - 1) s = s" using assms(2) by simp
  have "0 + length (s @ [NUL]) \<le> length buf" using assms by simp
  from store_bytes_fits[OF this]
  have "snprintf buf n s = Some (s @ NUL # drop (Suc (length s)) buf)"
    using n t by (simp add: snprintf_def)
  with c_str_value[OF assms(3)] show ?thesis by simp
qed

section \<open>The responses\<close>

lemma set_from_first: "set (from_first n h) \<subseteq> set h"
  by (induction h) auto

lemma param_value_no_NUL:
  assumes "NUL \<notin> set text" "NUL \<notin> set dflt"
  shows "NUL \<notin> set (param_value marker dflt text)"
proof -
  let ?v = "take 255 (takeWhile param_char
             (drop (length marker) (from_first marker (from_first ''GET '' text))))"
  let ?f = "from_first marker (from_first ''GET '' text)"
  have "set ?v \<subseteq> set (takeWhile param_char (drop (length marker) ?f))"
    by (rule set_take_subset)
  also have "\<dots> \<subseteq> set (drop (length marker) ?f)"
    by (auto dest: set_takeWhileD)
  also have "\<dots> \<subseteq> set ?f"
    by (rule set_drop_subset)
  also have "\<dots> \<subseteq> set (from_first ''GET '' text)"
    by (rule set_from_first)
  also have "\<dots> \<subseteq> set text"
    by (rule set_from_first)
  finally have "NUL \<notin> set ?v" using assms(1) by blast
  then show ?thesis using assms(2) by (simp add: param_value_def)
qed

lemma param_value_length:
  "length dflt \<le> 255 \<Longrightarrow> length (param_value marker dflt text) \<le> 255"
  by (simp add: param_value_def)

lemma search_json_no_NUL: "NUL \<notin> set q \<Longrightarrow> NUL \<notin> set (search_json q pid t)"
  using show_int_no_NUL[of "sint pid"] show_int_no_NUL[of "sint t"]
  unfolding search_json_def set_append Un_iff de_Morgan_disj
  by (simp add: NUL_def)

lemma search_json_length:
  "length (search_json q pid t)
     = 83 + length q + length (show_int (sint pid)) + length (show_int (sint t))"
  by (simp add: search_json_def)

lemma http_response_no_NUL: "NUL \<notin> set b \<Longrightarrow> NUL \<notin> set (http_response n b)"
  using show_int_no_NUL[of "int n"]
  unfolding http_response_def CRLF_def set_append Un_iff de_Morgan_disj
  by (simp add: NUL_def)

lemma http_response_length:
  "length (http_response n b) = 88 + length (show_int (int n)) + length b"
  by (simp add: http_response_def CRLF_def)

lemma wrap_fits:
  assumes "length b \<le> 511" "NUL \<notin> set b" "length buf = 1024"
  shows "\<exists>r. snprintf buf 1024 (http_response (length b) b) = Some r
           \<and> c_str r 0 = Some (http_response (length b) b)"
proof -
  have "length (show_int (int (length b))) \<le> 3"
    using assms(1) by (intro show_int_small_length) simp
  then have "length (http_response (length b) b) < 1024"
    using assms(1) by (simp add: http_response_length)
  from snprintf_fits[OF assms(3) this http_response_no_NUL[OF assms(2)]]
  show ?thesis .
qed

lemma search_send_response_eq:
  assumes q: "c_str query 0 = Some q" and l: "length q \<le> 255" and n: "NUL \<notin> set q"
  shows "search_send_response stack pid t query
           = Some (http_response (length (search_json q pid t)) (search_json q pid t))"
proof -
  let ?J = "search_json q pid t"
  have len: "length ?J \<le> 369"
    using l show_int_pid_length[of pid] show_int_time_length[of t]
    by (simp add: search_json_length)
  then have "length ?J < 512" by simp
  from snprintf_fits[OF length_uninit this search_json_no_NUL[OF n]]
  obtain body where b: "snprintf (uninit 512 stack) 512 ?J = Some body"
    "c_str body 0 = Some ?J" by blast
  have "length ?J \<le> 511" using len by simp
  from wrap_fits[OF this search_json_no_NUL[OF n] length_uninit]
  obtain r where r: "snprintf (uninit 1024 (drop 512 stack)) 1024 (http_response (length ?J) ?J)
      = Some r" "c_str r 0 = Some (http_response (length ?J) ?J)" by blast
  show ?thesis using q b r by (simp add: search_send_response_def)
qed

lemma search_reply_eq:
  "search_reply pid c
     = Some (http_response
         (length (search_json (param_value ''q='' ''default'' (request_text (peer_bytes c)))
                    pid (clock c)))
         (search_json (param_value ''q='' ''default'' (request_text (peer_bytes c)))
            pid (clock c)))"
proof -
  let ?v = "param_value ''q='' ''default'' (request_text (peer_bytes c))"
  from search_param_eq[of "peer_bytes c"]
  obtain query where e: "search_extract (request_buffer (peer_bytes c)) = Some query"
    and q: "c_str query 0 = Some ?v"
    by (auto simp: search_param_def bind_eq_Some_conv)
  have l: "length ?v \<le> 255" by (rule param_value_length) simp
  have n: "NUL \<notin> set ?v"
    by (rule param_value_no_NUL[OF request_text_no_NUL]) (simp add: NUL_def)
  show ?thesis
    using e search_send_response_eq[OF q l n] by (simp add: search_reply_def)
qed

lemma length_charset: "length charset = 63"
  by (simp add: charset_def char_array_def)

lemma pick_eq: "pick r = Some (charset ! (r mod 62))"
  by (simp add: pick_def load_def length_charset)

lemma charset_alnum: "j < 62 \<Longrightarrow> alnum (charset ! j)"
proof -
  let ?lit = "''abcdefghijklmnopqrstuvwxyzABCDEFGHIJKLMNOPQRSTUVWXYZ0123456789''"
  assume j: "j < 62"
  have l: "length ?lit = 62" by simp
  have "list_all alnum ?lit" by (simp add: alnum_def)
  then have "alnum (?lit ! j)" using j l by (simp add: list_all_length)
  moreover have "charset ! j = ?lit ! j"
    using j l unfolding charset_def char_array_def by (simp only: nth_append if_True)
  ultimately show ?thesis by simp
qed

lemma alnum_not_NUL: "alnum c \<Longrightarrow> c \<noteq> NUL"
  by (auto simp: alnum_def NUL_def)

lemma token_of_length: "length (token_of R g) = 32"
  by (simp add: token_of_def)

lemma token_of_alnum: "list_all alnum (token_of R g)"
  by (simp add: token_of_def list_all_iff charset_alnum)

lemma token_of_no_NUL: "NUL \<notin> set (token_of R g)"
  using token_of_alnum[of R g] alnum_not_NUL by (auto simp: list_all_iff)

lemma gen_loop_spec:
  assumes "length token = Suc n" "len = int n + 1" "i \<le> n"
  shows "gen_loop R g token len i
           = Some (take i token
                     @ map (\<lambda>k. charset ! (R (seed g) (calls g + k) mod 62)) [0..<n - i]
                     @ drop n token,
                   g\<lparr>calls := calls g + (n - i)\<rparr>)"
  using assms
proof (induction "n - i" arbitrary: i g token)
  case 0
  then have "i = n" by simp
  then have "\<not> int i < len - 1" using 0 by simp
  then show ?case using \<open>i = n\<close> by (subst gen_loop.simps) simp
next
  case (Suc d)
  then have i: "i < n" by simp
  let ?c = "charset ! (R (seed g) (calls g) mod 62)"
  let ?g = "g\<lparr>calls := Suc (calls g)\<rparr>"
  have c: "int i < len - 1" using i Suc.prems by simp
  have st: "store token i ?c = Some (token[i := ?c])"
    using i Suc.prems by (simp add: store_def)
  have rec: "gen_loop R ?g (token[i := ?c]) len (i + 1)
      = Some (take (i + 1) (token[i := ?c])
                @ map (\<lambda>k. charset ! (R (seed ?g) (calls ?g + k) mod 62)) [0..<n - (i + 1)]
                @ drop n (token[i := ?c]),
              ?g\<lparr>calls := calls ?g + (n - (i + 1))\<rparr>)"
    using Suc.hyps(2) Suc.prems i by (intro Suc.hyps(1)) simp_all
  have t: "take (i + 1) (token[i := ?c]) = take i token @ [?c]"
    using i Suc.prems by (simp add: take_Suc_conv_app_nth)
  have d: "drop n (token[i := ?c]) = drop n token" using i by simp
  have ni: "n - i = Suc (n - (i + 1))" using i by simp
  have m: "map (\<lambda>k. charset ! (R (seed g) (calls g + k) mod 62)) [0..<n - i]
      = ?c # map (\<lambda>k. charset ! (R (seed ?g) (calls ?g + k) mod 62)) [0..<n - (i + 1)]"
    unfolding ni map_upt_Suc by simp
  have gg: "?g\<lparr>calls := calls ?g + (n - (i + 1))\<rparr> = g\<lparr>calls := calls g + (n - i)\<rparr>"
    using i by simp
  have "gen_loop R g token len i = gen_loop R ?g (token[i := ?c]) len (i + 1)"
    by (subst gen_loop.simps) (simp add: c rand_def pick_eq st)
  then show ?case unfolding rec t d m gg by simp
qed

lemma generate_token_eq:
  assumes "length token = 33"
  shows "generate_token R g token 33
           = Some (token_of R g @ [NUL], g\<lparr>calls := calls g + 32\<rparr>)"
proof -
  have gl: "gen_loop R g token 33 0
      = Some (token_of R g @ drop 32 token, g\<lparr>calls := calls g + 32\<rparr>)"
    using gen_loop_spec[of token 32 33 0 R g] assms by (simp add: token_of_def)
  obtain x where x: "drop 32 token = [x]"
    using assms by (cases "drop 32 token") (auto simp: length_Suc_conv dest: arg_cong[of _ _ length])
  have "store (token_of R g @ drop 32 token) 32 NUL = Some (token_of R g @ [NUL])"
    using x token_of_length[of R g] by (simp add: store_def list_update_append)
  then show ?thesis using gl by (simp add: generate_token_def)
qed

lemma auth_json_no_NUL:
  "NUL \<notin> set u \<Longrightarrow> NUL \<notin> set tk \<Longrightarrow> NUL \<notin> set (auth_json u tk pid e)"
  using show_int_no_NUL[of "sint pid"] show_int_no_NUL[of "sint e"]
  unfolding auth_json_def set_append Un_iff de_Morgan_disj
  by (simp add: NUL_def)

lemma auth_json_length:
  "length (auth_json u tk pid e)
     = 47 + length u + length tk + length (show_int (sint pid)) + length (show_int (sint e))"
  by (simp add: auth_json_def)

lemma auth_send_response_eq:
  assumes u: "c_str user 0 = Some u" and l: "length u \<le> 255" and n: "NUL \<notin> set u"
  shows "auth_send_response R stack pid t g user
           = Some (http_response (length (auth_json u (token_of R g) pid (t + 3600)))
                     (auth_json u (token_of R g) pid (t + 3600)),
                   g\<lparr>calls := calls g + 32\<rparr>)"
proof -
  let ?J = "auth_json u (token_of R g) pid (t + 3600)"
  have gt: "generate_token R g (uninit 33 stack) 33
      = Some (token_of R g @ [NUL], g\<lparr>calls := calls g + 32\<rparr>)"
    by (rule generate_token_eq) (rule length_uninit)
  have tk: "c_str (token_of R g @ [NUL]) 0 = Some (token_of R g)"
    by (rule c_str_value[OF token_of_no_NUL])
  have nn: "NUL \<notin> set ?J" by (rule auth_json_no_NUL[OF n token_of_no_NUL])
  have len: "length ?J \<le> 365"
    using l show_int_pid_length[of pid] show_int_time_length[of "t + 3600"]
    by (simp add: auth_json_length token_of_length)
  then have "length ?J < 512" by simp
  from snprintf_fits[OF length_uninit this nn]
  obtain body where b: "snprintf (uninit 512 (drop 33 stack)) 512 ?J = Some body"
    "c_str body 0 = Some ?J" by blast
  have "length ?J \<le> 511" using len by simp
  from wrap_fits[OF this nn length_uninit]
  obtain r where r: "snprintf (uninit 1024 (drop 545 stack)) 1024 (http_response (length ?J) ?J)
      = Some r" "c_str r 0 = Some (http_response (length ?J) ?J)" by blast
  show ?thesis using gt u tk b r by (simp add: auth_send_response_def)
qed

lemma auth_reply_eq:
  "auth_reply R pid g c
     = Some (http_response
         (length (auth_json (param_value ''user='' ''anonymous'' (request_text (peer_bytes c)))
                    (token_of R g) pid (clock c + 3600)))
         (auth_json (param_value ''user='' ''anonymous'' (request_text (peer_bytes c)))
            (token_of R g) pid (clock c + 3600)),
        g\<lparr>calls := calls g + 32\<rparr>)"
proof -
  let ?v = "param_value ''user='' ''anonymous'' (request_text (peer_bytes c))"
  from auth_param_eq[of "peer_bytes c"]
  obtain user where e: "auth_extract (request_buffer (peer_bytes c)) = Some user"
    and q: "c_str user 0 = Some ?v"
    by (auto simp: auth_param_def bind_eq_Some_conv)
  have l: "length ?v \<le> 255" by (rule param_value_length) simp
  have n: "NUL \<notin> set ?v"
    by (rule param_value_no_NUL[OF request_text_no_NUL]) (simp add: NUL_def)
  show ?thesis
    using e auth_send_response_eq[OF q l n] by (simp add: auth_reply_def)
qed


lemma from_first_skip:
  assumes "n \<noteq> []" "hd n \<notin> set ds"
  shows "from_first n (ds @ r) = from_first n r"
  using assms(2)
proof (induction ds)
  case Nil
  then show ?case by simp
next
  case (Cons d ds)
  then have "d \<noteq> hd n" by auto
  then have "\<not> prefix n (d # ds @ r)" using assms(1) by (cases n) auto
  with Cons show ?case by simp
qed

lemma is_digit_not_CR: "is_digit c \<Longrightarrow> c \<noteq> CHR 0x0D"
  by (auto simp: is_digit_def)

lemma CR_not_digit: "list_all is_digit ds \<Longrightarrow> CHR 0x0D \<notin> set ds"
  using is_digit_not_CR by (auto simp: list_all_iff)

lemma show_int_nat: "show_int (int n) = show_nat n"
  by (simp add: show_int_def)

lemma body_of_http_response: "body_of (http_response n b) = b"
proof -
  have d: "CHR 0x0D \<notin> set (show_nat n)" using show_nat_digits by (rule CR_not_digit)
  have "from_first (CRLF @ CRLF) (show_nat n @ CRLF @ ''Connection: close'' @ CRLF @ CRLF @ b)
          = from_first (CRLF @ CRLF) (CRLF @ ''Connection: close'' @ CRLF @ CRLF @ b)"
    by (rule from_first_skip) (use d in \<open>simp_all add: CRLF_def\<close>)
  then show ?thesis
    by (simp add: body_of_def http_response_def show_int_nat CRLF_def)
qed


lemma expiry_no_overflow:
  assumes "sint (t :: 64 word) < 2 ^ 63 - 3600"
  shows "sint (t + 3600) = sint t + 3600"
proof -
  have lo: "- (2 ^ 63) \<le> sint t" using sint_ge[of t] by simp
  have s: "sint (3600 :: 64 word) = 3600" by simp
  have "sint (t + 3600) = signed_take_bit 63 (sint t + 3600)"
    using sint_word_add[of t 3600] s by simp
  also have "\<dots> = sint t + 3600"
    using lo assms by (intro signed_take_bit_int_eq_self) simp_all
  finally show ?thesis .
qed

lemma show_nat_small: "n < 10 \<Longrightarrow> show_nat n = [digit_char n]"
  by (subst show_nat.simps) simp

lemma show_nat_step: "\<not> n < 10 \<Longrightarrow> show_nat n = show_nat (n div 10) @ [digit_char (n mod 10)]"
  by (subst show_nat.simps) simp

section \<open>Occurrences by offset\<close>

lemma prefix_iff_take: "prefix n h \<longleftrightarrow> take (length n) h = n"
  by (metis append_eq_conv_conj prefix_def take_is_prefix)

lemma occurs_at_0: "occurs_at n (c # cs) 0 \<longleftrightarrow> prefix n (c # cs)"
  by (simp add: occurs_at_def prefix_iff_take)

lemma occurs_at_Suc: "occurs_at n (c # cs) (Suc j) \<longleftrightarrow> occurs_at n cs j"
  by (simp add: occurs_at_def)

lemma occurs_at_drop: "occurs_at n (drop g h) j \<longleftrightarrow> occurs_at n h (j + g)"
  by (simp add: occurs_at_def)

lemma find_first_pos:
  assumes "n \<noteq> []"
  shows "occurs_at n h k \<Longrightarrow> \<forall>j<k. \<not> occurs_at n h j \<Longrightarrow> find_first n h = Some k"
proof (induction h arbitrary: k)
  case Nil
  then show ?case using assms by (simp add: occurs_at_def)
next
  case (Cons c cs)
  show ?case
  proof (cases k)
    case 0
    with Cons.prems(1) show ?thesis by (simp add: occurs_at_0)
  next
    case (Suc k')
    have "\<not> prefix n (c # cs)" using Cons.prems(2) Suc occurs_at_0[of n c cs] by blast
    moreover have "occurs_at n cs k'" using Cons.prems(1) Suc by (simp add: occurs_at_Suc)
    moreover have "\<forall>j<k'. \<not> occurs_at n cs j"
      using Cons.prems(2) Suc occurs_at_Suc[of n c cs] by auto
    ultimately show ?thesis using Cons.IH[of k'] Suc by simp
  qed
qed

lemma param_value_pos:
  assumes mk: "marker \<noteq> []"
    and g: "occurs_at ''GET '' text g" "list_all (\<lambda>j. \<not> occurs_at ''GET '' text j) [0..<g]"
    and m: "g \<le> m" "occurs_at marker text m"
      "list_all (\<lambda>j. \<not> occurs_at marker text j) [g..<m]"
  shows "param_value marker dflt text
           = take 255 (takeWhile param_char (drop (m + length marker) text))"
proof -
  have "\<forall>j<g. \<not> occurs_at ''GET '' text j" using g(2) by (simp add: list_all_iff)
  with g(1) have fg: "find_first ''GET '' text = Some g" by (intro find_first_pos) simp_all
  have o: "occurs_at marker (drop g text) (m - g)" using m(1,2) by (simp add: occurs_at_drop)
  have "\<forall>j<m - g. \<not> occurs_at marker (drop g text) j"
    using m(3) by (auto simp: list_all_iff occurs_at_drop)
  with o have fm: "find_first marker (drop g text) = Some (m - g)"
    by (intro find_first_pos[OF mk])
  from param_value_found[OF mk fg fm] m(1) show ?thesis by simp
qed

lemma empty_value:
  assumes "list_all (\<lambda>c. \<not> param_char c) (take 1 rest)"
  shows "take 255 (takeWhile param_char rest) = []"
  using assms by (cases rest) auto

lemma param_value_q:
  "param_value ''q='' dflt text
     = (if sublist ''q='' (from_first ''GET '' text)
        then take 255 (takeWhile param_char (drop 2 (from_first ''q='' (from_first ''GET '' text))))
        else dflt)"
proof -
  have l: "length ''q='' = 2" by simp
  show ?thesis unfolding param_value_def l ..
qed

lemma param_value_user:
  "param_value ''user='' dflt text
     = (if sublist ''user='' (from_first ''GET '' text)
        then take 255 (takeWhile param_char
               (drop 5 (from_first ''user='' (from_first ''GET '' text))))
        else dflt)"
proof -
  have l: "length ''user='' = 5" by simp
  show ?thesis unfolding param_value_def l ..
qed

section \<open>Startup\<close>





section \<open>Counting the values of rand\<close>

lemma count_mod:
  assumes "k < m"
  shows "length (filter (\<lambda>r. r mod m = k) [0..<n]) = n div m + (if k < n mod m then 1 else 0)"
proof (induction n)
  case 0
  show ?case by simp
next
  case (Suc n)
  have m: "0 < m" using assms by simp
  show ?case
  proof (cases "Suc (n mod m) = m")
    case True
    then have "Suc n mod m = 0" "Suc n div m = Suc (n div m)"
      by (simp_all add: mod_Suc div_Suc)
    moreover have "(n mod m = k) = (\<not> k < n mod m)" using True assms by auto
    ultimately show ?thesis using Suc by simp
  next
    case False
    then have "Suc n mod m = Suc (n mod m)" "Suc n div m = n div m"
      by (simp_all add: mod_Suc div_Suc)
    then show ?thesis using Suc by auto
  qed
qed

lemma distinct_charset: "distinct charset"
  by (simp add: charset_def char_array_def NUL_def)

lemma pick_index:
  assumes "k < 62"
  shows "pick r = Some (charset ! k) \<longleftrightarrow> r mod 62 = k"
proof -
  have "r mod 62 < length charset" "k < length charset"
    using assms by (simp_all add: length_charset)
  then have "charset ! (r mod 62) = charset ! k \<longleftrightarrow> r mod 62 = k"
    using distinct_charset by (simp add: nth_eq_iff_index_eq)
  then show ?thesis by (simp add: pick_eq)
qed

lemma picks_count:
  assumes "k < 62"
  shows "picks rand_max (charset ! k)
           = Suc rand_max div 62 + (if k < Suc rand_max mod 62 then 1 else 0)"
  unfolding picks_def pick_index[OF assms] by (rule count_mod[OF assms])

lemma picks_first_last:
  "(picks rand_max (charset ! 0) = picks rand_max (charset ! 61)) = (Suc rand_max mod 62 = 0)"
proof -
  have "Suc rand_max mod 62 < 62" by simp
  then show ?thesis
    using picks_count[of 0 rand_max] picks_count[of 61 rand_max] by auto
qed

lemma charset_0: "charset ! 0 = CHR ''a''" and charset_2: "charset ! 2 = CHR ''c''"
  by (simp_all add: charset_def char_array_def)

section \<open>The loops\<close>

lemma search_iteration_failed:
  "accept_ret c < 0 \<Longrightarrow> search_iteration pid c = Some ([Accept (accept_ret c)], Loop)"
  by (simp add: search_iteration_def)

lemma search_iteration_accepted:
  "\<not> accept_ret c < 0 \<Longrightarrow>
     \<exists>r. search_reply pid c = Some r
        \<and> search_iteration pid c
            = Some (if sigpipe c
                    then ([Accept (accept_ret c), Recv (accept_ret c), Send (accept_ret c) r],
                          Killed)
                    else ([Accept (accept_ret c), Recv (accept_ret c), Send (accept_ret c) r,
                           Close (accept_ret c)], Loop))"
  by (simp add: search_iteration_def search_reply_eq)

lemma auth_iteration_failed:
  "accept_ret c < 0 \<Longrightarrow> auth_iteration R pid g c = Some ([Accept (accept_ret c)], g, Loop)"
  by (simp add: auth_iteration_def)

lemma auth_iteration_accepted:
  "\<not> accept_ret c < 0 \<Longrightarrow>
     \<exists>r. auth_reply R pid g c = Some (r, g\<lparr>calls := calls g + 32\<rparr>)
        \<and> auth_iteration R pid g c
            = Some (if sigpipe c
                    then ([Accept (accept_ret c), Recv (accept_ret c), Send (accept_ret c) r],
                          g\<lparr>calls := calls g + 32\<rparr>, Killed)
                    else ([Accept (accept_ret c), Recv (accept_ret c), Send (accept_ret c) r,
                           Close (accept_ret c)], g\<lparr>calls := calls g + 32\<rparr>, Loop))"
  by (simp add: auth_iteration_def auth_reply_eq)

lemma search_loop_failed:
  "accept_ret c < 0 \<Longrightarrow>
     search_loop pid (c # cs)
       = map_option (\<lambda>(ts, out). (Accept (accept_ret c) # ts, out)) (search_loop pid cs)"
  by (cases "search_loop pid cs") (auto simp: search_iteration_failed)

lemma search_loop_accepted:
  assumes "\<not> accept_ret c < 0"
  shows "\<exists>r. search_reply pid c = Some r
        \<and> search_loop pid (c # cs)
            = (if sigpipe c
               then Some ([Accept (accept_ret c), Recv (accept_ret c), Send (accept_ret c) r],
                          Killed)
               else map_option
                      (\<lambda>(ts, out). (Accept (accept_ret c) # Recv (accept_ret c)
                                      # Send (accept_ret c) r # Close (accept_ret c) # ts, out))
                      (search_loop pid cs))"
proof -
  from search_iteration_accepted[OF assms, of pid] obtain r where
    r: "search_reply pid c = Some r" and
    i: "search_iteration pid c
            = Some (if sigpipe c
                    then ([Accept (accept_ret c), Recv (accept_ret c), Send (accept_ret c) r],
                          Killed)
                    else ([Accept (accept_ret c), Recv (accept_ret c), Send (accept_ret c) r,
                           Close (accept_ret c)], Loop))" by blast
  show ?thesis
    by (rule exI[of _ r]) (cases "search_loop pid cs"; simp add: r i split: prod.splits)
qed

lemma auth_loop_failed:
  "accept_ret c < 0 \<Longrightarrow>
     auth_loop R pid g (c # cs)
       = map_option (\<lambda>(ts, g', out). (Accept (accept_ret c) # ts, g', out)) (auth_loop R pid g cs)"
  by (cases "auth_loop R pid g cs") (auto simp: auth_iteration_failed)

lemma auth_loop_accepted:
  assumes "\<not> accept_ret c < 0"
  shows "\<exists>r. auth_reply R pid g c = Some (r, g\<lparr>calls := calls g + 32\<rparr>)
        \<and> auth_loop R pid g (c # cs)
            = (if sigpipe c
               then Some ([Accept (accept_ret c), Recv (accept_ret c), Send (accept_ret c) r],
                          g\<lparr>calls := calls g + 32\<rparr>, Killed)
               else map_option
                      (\<lambda>(ts, g', out). (Accept (accept_ret c) # Recv (accept_ret c)
                                      # Send (accept_ret c) r # Close (accept_ret c) # ts, g', out))
                      (auth_loop R pid (g\<lparr>calls := calls g + 32\<rparr>) cs))"
proof -
  from auth_iteration_accepted[OF assms, of R pid g] obtain r where
    r: "auth_reply R pid g c = Some (r, g\<lparr>calls := calls g + 32\<rparr>)" and
    i: "auth_iteration R pid g c
            = Some (if sigpipe c
                    then ([Accept (accept_ret c), Recv (accept_ret c), Send (accept_ret c) r],
                          g\<lparr>calls := calls g + 32\<rparr>, Killed)
                    else ([Accept (accept_ret c), Recv (accept_ret c), Send (accept_ret c) r,
                           Close (accept_ret c)], g\<lparr>calls := calls g + 32\<rparr>, Loop))" by blast
  show ?thesis
    by (rule exI[of _ r])
       (cases "auth_loop R pid (g\<lparr>calls := calls g + 32\<rparr>) cs"; simp add: r i split: prod.splits)
qed

lemma search_loop_runs:
  "\<exists>t out. search_loop pid cs = Some (t, out) \<and> sequential t
       \<and> length (filter is_accept t) = turns_made cs
       \<and> out = (if list_ex ends_process cs then Killed else Loop)"
proof (induction cs)
  case Nil
  show ?case by simp
next
  case (Cons c cs)
  then obtain t out where t: "search_loop pid cs = Some (t, out)" "sequential t"
    "length (filter is_accept t) = turns_made cs"
    "out = (if list_ex ends_process cs then Killed else Loop)" by blast
  show ?case
  proof (cases "accept_ret c < 0")
    case True
    with t search_loop_failed[OF True, of pid cs] show ?thesis
      by (simp add: ends_process_def[of c])
  next
    case False
    from search_loop_accepted[OF False, of pid cs] obtain r where
      "search_loop pid (c # cs)
            = (if sigpipe c
               then Some ([Accept (accept_ret c), Recv (accept_ret c), Send (accept_ret c) r],
                          Killed)
               else map_option
                      (\<lambda>(ts, out). (Accept (accept_ret c) # Recv (accept_ret c)
                                      # Send (accept_ret c) r # Close (accept_ret c) # ts, out))
                      (search_loop pid cs))" by blast
    with t False show ?thesis by (simp add: ends_process_def[of c])
  qed
qed

lemma auth_loop_runs:
  "\<exists>t g' out. auth_loop R pid g cs = Some (t, g', out) \<and> sequential t
       \<and> length (filter is_accept t) = turns_made cs
       \<and> out = (if list_ex ends_process cs then Killed else Loop)
       \<and> filter is_srand t = []
       \<and> seed g' = seed g"
proof (induction cs arbitrary: g)
  case Nil
  show ?case by simp
next
  case (Cons c cs)
  show ?case
  proof (cases "accept_ret c < 0")
    case True
    from Cons[of g] obtain t g' out where t: "auth_loop R pid g cs = Some (t, g', out)"
      "sequential t" "length (filter is_accept t) = turns_made cs"
      "out = (if list_ex ends_process cs then Killed else Loop)"
      "filter is_srand t = []" "seed g' = seed g" by blast
    with auth_loop_failed[OF True, of R pid g cs] True show ?thesis
      by (simp add: ends_process_def[of c])
  next
    case False
    let ?g = "g\<lparr>calls := calls g + 32\<rparr>"
    from Cons[of ?g] obtain t g' out where t: "auth_loop R pid ?g cs = Some (t, g', out)"
      "sequential t" "length (filter is_accept t) = turns_made cs"
      "out = (if list_ex ends_process cs then Killed else Loop)"
      "filter is_srand t = []" "seed g' = seed ?g" by blast
    from auth_loop_accepted[OF False, of R pid g cs] obtain r where
      "auth_loop R pid g (c # cs)
            = (if sigpipe c
               then Some ([Accept (accept_ret c), Recv (accept_ret c), Send (accept_ret c) r],
                          ?g, Killed)
               else map_option
                      (\<lambda>(ts, g', out). (Accept (accept_ret c) # Recv (accept_ret c)
                                      # Send (accept_ret c) r # Close (accept_ret c) # ts, g', out))
                      (auth_loop R pid ?g cs))" by blast
    with t False show ?thesis by (simp add: ends_process_def[of c])
  qed
qed

section \<open>The generator across the loop\<close>

lemma rng_calls_twice:
  "g\<lparr>calls := calls g + 32\<rparr>\<lparr>calls := calls (g\<lparr>calls := calls g + 32\<rparr>) + m\<rparr>
     = g\<lparr>calls := calls g + (32 + m)\<rparr>"
  by (simp add: add.assoc)

lemma auth_loop_last:
  assumes "\<not> list_ex ends_process cs" "\<not> accept_ret c < 0"
  shows "\<exists>t r. auth_reply R pid
                 (g\<lparr>calls := calls g + 32 * length (filter (\<lambda>x. \<not> accept_ret x < 0) cs)\<rparr>) c
               = Some (r, g\<lparr>calls := calls g
                            + 32 * Suc (length (filter (\<lambda>x. \<not> accept_ret x < 0) cs))\<rparr>)
          \<and> auth_loop R pid g (cs @ [c])
               = Some (t @ Send (accept_ret c) r
                           # (if sigpipe c then [] else [Close (accept_ret c)]),
                       g\<lparr>calls := calls g
                            + 32 * Suc (length (filter (\<lambda>x. \<not> accept_ret x < 0) cs))\<rparr>,
                       if sigpipe c then Killed else Loop)
          \<and> filter is_srand t = []"
  using assms(1)
proof (induction cs arbitrary: g)
  case Nil
  from auth_loop_accepted[OF assms(2), of R pid g "[]"] obtain r where
    r: "auth_reply R pid g c = Some (r, g\<lparr>calls := calls g + 32\<rparr>)" and
    l: "auth_loop R pid g [c]
          = (if sigpipe c
               then Some ([Accept (accept_ret c), Recv (accept_ret c), Send (accept_ret c) r],
                          g\<lparr>calls := calls g + 32\<rparr>, Killed)
               else map_option
                      (\<lambda>(ts, g', out). (Accept (accept_ret c) # Recv (accept_ret c)
                                      # Send (accept_ret c) r # Close (accept_ret c) # ts, g', out))
                      (auth_loop R pid (g\<lparr>calls := calls g + 32\<rparr>) []))" by blast
  have "auth_loop R pid g ([] @ [c])
          = Some ([Accept (accept_ret c), Recv (accept_ret c)] @ Send (accept_ret c) r
                           # (if sigpipe c then [] else [Close (accept_ret c)]),
                  g\<lparr>calls := calls g + 32\<rparr>, if sigpipe c then Killed else Loop)"
    unfolding append_Nil l by simp
  with r show ?case
    by (intro exI[of _ "[Accept (accept_ret c), Recv (accept_ret c)]"] exI[of _ r]) simp
next
  case (Cons d cs)
  from Cons.prems have nd: "\<not> ends_process d" and ncs: "\<not> list_ex ends_process cs" by simp_all
  show ?case
  proof (cases "accept_ret d < 0")
    case True
    from Cons.IH[OF ncs, of g] obtain t r where
      r: "auth_reply R pid
                 (g\<lparr>calls := calls g + 32 * length (filter (\<lambda>x. \<not> accept_ret x < 0) cs)\<rparr>) c
               = Some (r, g\<lparr>calls := calls g
                            + 32 * Suc (length (filter (\<lambda>x. \<not> accept_ret x < 0) cs))\<rparr>)" and
      l: "auth_loop R pid g (cs @ [c])
               = Some (t @ Send (accept_ret c) r
                           # (if sigpipe c then [] else [Close (accept_ret c)]),
                       g\<lparr>calls := calls g
                            + 32 * Suc (length (filter (\<lambda>x. \<not> accept_ret x < 0) cs))\<rparr>,
                       if sigpipe c then Killed else Loop)" and
      s: "filter is_srand t = []" by blast
    have "auth_loop R pid g ((d # cs) @ [c])
            = Some ((Accept (accept_ret d) # t) @ Send (accept_ret c) r
                           # (if sigpipe c then [] else [Close (accept_ret c)]),
                       g\<lparr>calls := calls g
                            + 32 * Suc (length (filter (\<lambda>x. \<not> accept_ret x < 0) cs))\<rparr>,
                       if sigpipe c then Killed else Loop)"
      unfolding append_Cons auth_loop_failed[OF True] l by simp
    with r s True show ?thesis
      by (intro exI[of _ "Accept (accept_ret d) # t"] exI[of _ r]) simp
  next
    case False
    with nd have sp: "\<not> sigpipe d" by (simp add: ends_process_def)
    let ?g = "g\<lparr>calls := calls g + 32\<rparr>"
    let ?n = "length (filter (\<lambda>x. \<not> accept_ret x < 0) cs)"
    from Cons.IH[OF ncs, of ?g] obtain t r where
      r: "auth_reply R pid (?g\<lparr>calls := calls ?g + 32 * ?n\<rparr>) c
               = Some (r, ?g\<lparr>calls := calls ?g + 32 * Suc ?n\<rparr>)" and
      l: "auth_loop R pid ?g (cs @ [c])
               = Some (t @ Send (accept_ret c) r
                           # (if sigpipe c then [] else [Close (accept_ret c)]),
                       ?g\<lparr>calls := calls ?g + 32 * Suc ?n\<rparr>,
                       if sigpipe c then Killed else Loop)" and
      s: "filter is_srand t = []" by blast
    from auth_loop_accepted[OF False, of R pid g "cs @ [c]"] sp obtain r' where
      l': "auth_loop R pid g (d # cs @ [c])
            = map_option
                      (\<lambda>(ts, g', out). (Accept (accept_ret d) # Recv (accept_ret d)
                                      # Send (accept_ret d) r' # Close (accept_ret d) # ts, g', out))
                      (auth_loop R pid ?g (cs @ [c]))" by auto
    let ?t = "Accept (accept_ret d) # Recv (accept_ret d) # Send (accept_ret d) r'
                # Close (accept_ret d) # t"
    have e1: "?g\<lparr>calls := calls ?g + 32 * ?n\<rparr>
               = g\<lparr>calls := calls g + 32 * length (filter (\<lambda>x. \<not> accept_ret x < 0) (d # cs))\<rparr>"
      using False by (simp add: rng_calls_twice)
    have e2: "?g\<lparr>calls := calls ?g + 32 * Suc ?n\<rparr>
               = g\<lparr>calls := calls g
                     + 32 * Suc (length (filter (\<lambda>x. \<not> accept_ret x < 0) (d # cs)))\<rparr>"
      using False by (simp add: rng_calls_twice)
    have "auth_loop R pid g ((d # cs) @ [c])
            = Some (?t @ Send (accept_ret c) r
                           # (if sigpipe c then [] else [Close (accept_ret c)]),
                    ?g\<lparr>calls := calls ?g + 32 * Suc ?n\<rparr>,
                    if sigpipe c then Killed else Loop)"
      unfolding append_Cons l' l by simp
    with r s show ?thesis
      unfolding e1 e2 by (intro exI[of _ ?t] exI[of _ r]) simp
  qed
qed

lemma auth_startup_ok:
  assumes "length argv = 2" "\<not> socket_ret os < 0" "\<not> setsockopt_ret os < 0"
    "\<not> bind_ret os < 0" "\<not> listen_ret os < 0"
  shows "\<exists>t. auth_startup argv pid t0 os = (t, Loop)
           \<and> filter is_srand t = [Srand (auth_seed t0 pid)]"
  using assms by (simp add: auth_startup_def)

lemma auth_main_srand:
  assumes "length argv = 2"
  shows "\<exists>t out. auth_main R argv pid t0 os cs = Some (t, out)
           \<and> filter is_srand t = [Srand (auth_seed t0 pid)]"
proof -
  obtain ts g' out where l: "auth_loop R pid (srand (auth_seed t0 pid)) cs = Some (ts, g', out)"
    "filter is_srand ts = []"
    using auth_loop_runs[of R pid "srand (auth_seed t0 pid)" cs] by blast
  show ?thesis
    using assms l by (simp add: auth_main_def auth_startup_def)
qed

lemma generate_token_uninit:
  "generate_token R g (uninit 33 stack) 33
     = Some (map (\<lambda>i. charset ! (R (seed g) (calls g + i) mod 62)) [0..<32] @ [NUL],
             g\<lparr>calls := calls g + 32\<rparr>)"
  using generate_token_eq[of "uninit 33 stack" R g] by (simp add: length_uninit token_of_def)

lemma auth_main_last:
  assumes "length argv = 2" "\<not> socket_ret os < 0" "\<not> setsockopt_ret os < 0"
    "\<not> bind_ret os < 0" "\<not> listen_ret os < 0"
    "\<not> list_ex ends_process cs" "\<not> accept_ret c < 0"
  shows "\<exists>t. auth_main R argv pid t0 os (cs @ [c])
           = Some (t @ Send (accept_ret c)
                        (http_response
                          (length (auth_json
                             (param_value ''user='' ''anonymous'' (request_text (peer_bytes c)))
                             (map (\<lambda>i. charset ! (R (auth_seed t0 pid)
                                    (32 * length (filter (\<lambda>x. \<not> accept_ret x < 0) cs) + i) mod 62))
                                [0..<32])
                             pid (clock c + 3600)))
                          (auth_json
                             (param_value ''user='' ''anonymous'' (request_text (peer_bytes c)))
                             (map (\<lambda>i. charset ! (R (auth_seed t0 pid)
                                    (32 * length (filter (\<lambda>x. \<not> accept_ret x < 0) cs) + i) mod 62))
                                [0..<32])
                             pid (clock c + 3600)))
                      # (if sigpipe c then [] else [Close (accept_ret c)]),
                   if sigpipe c then Killed else Loop)"
proof -
  let ?g = "srand (auth_seed t0 pid)"
  let ?n = "length (filter (\<lambda>x. \<not> accept_ret x < 0) cs)"
  from auth_startup_ok[OF assms(1-5), of pid t0] obtain t1 where
    s: "auth_startup argv pid t0 os = (t1, Loop)" by blast
  from auth_loop_last[OF assms(6,7), of R pid ?g] obtain t r where
    r: "auth_reply R pid (?g\<lparr>calls := calls ?g + 32 * ?n\<rparr>) c
          = Some (r, ?g\<lparr>calls := calls ?g + 32 * Suc ?n\<rparr>)" and
    l: "auth_loop R pid ?g (cs @ [c])
               = Some (t @ Send (accept_ret c) r
                           # (if sigpipe c then [] else [Close (accept_ret c)]),
                       ?g\<lparr>calls := calls ?g + 32 * Suc ?n\<rparr>,
                       if sigpipe c then Killed else Loop)" by blast
  let ?tok = "map (\<lambda>i. charset ! (R (auth_seed t0 pid) (32 * ?n + i) mod 62)) [0..<32]"
  let ?u = "param_value ''user='' ''anonymous'' (request_text (peer_bytes c))"
  let ?r = "http_response (length (auth_json ?u ?tok pid (clock c + 3600)))
              (auth_json ?u ?tok pid (clock c + 3600))"
  have sd: "seed (?g\<lparr>calls := calls ?g + 32 * ?n\<rparr>) = auth_seed t0 pid"
    and cl: "calls (?g\<lparr>calls := calls ?g + 32 * ?n\<rparr>) = 32 * ?n"
    by (simp_all add: srand_def)
  have tk: "token_of R (?g\<lparr>calls := calls ?g + 32 * ?n\<rparr>) = ?tok"
    unfolding token_of_def sd cl by (rule refl)
  from r have "Some (?r, (?g\<lparr>calls := calls ?g + 32 * ?n\<rparr>)
                        \<lparr>calls := calls (?g\<lparr>calls := calls ?g + 32 * ?n\<rparr>) + 32\<rparr>)
                = Some (r, ?g\<lparr>calls := calls ?g + 32 * Suc ?n\<rparr>)"
    unfolding auth_reply_eq tk .
  then have "?r = r" by (simp only: option.inject prod.inject)
  then have r': "r = ?r" by (rule sym)
  have "auth_main R argv pid t0 os (cs @ [c])
          = Some ((t1 @ t) @ Send (accept_ret c) r
                           # (if sigpipe c then [] else [Close (accept_ret c)]),
                  if sigpipe c then Killed else Loop)"
    by (simp add: auth_main_def s l)
  then have "auth_main R argv pid t0 os (cs @ [c])
          = Some ((t1 @ t) @ Send (accept_ret c) ?r
                           # (if sigpipe c then [] else [Close (accept_ret c)]),
                  if sigpipe c then Killed else Loop)"
    unfolding r' .
  then show ?thesis by (rule exI[of _ "t1 @ t"])
qed

section \<open>Sizes of the replies\<close>



section \<open>The extracted parameter\<close>

text \<open>
  Claim C1, as amended. Let the text of a request be the received bytes (at most 1023)
  up to, but not including, the first zero byte. When the text is
  \<open>pre @ ''GET '' @ mid @ marker @ rest\<close>, where this \<^verbatim>\<open>GET \<close> is the first one of the
  text and the marker (\<^verbatim>\<open>q=\<close> for the Query Responder, \<^verbatim>\<open>user=\<close> for the Token
  Issuer) does not occur earlier at or after it, the extracted parameter is \<open>rest\<close>
  up to, but not including, its first space or ampersand, cut to at most 255
  characters. When \<^verbatim>\<open>GET \<close> or the marker does not occur in the text, the extracted
  parameter is the default (\<^verbatim>\<open>default\<close>, \<^verbatim>\<open>anonymous\<close>).
\<close>

theorem extracted_parameter:
  "(request_text d = pre @ ''GET '' @ mid @ ''q='' @ rest
      \<and> \<not> sublist ''GET '' (pre @ ''GET'') \<and> \<not> sublist ''q='' (''GET '' @ mid @ ''q'')
     \<longrightarrow> search_param d = Some (take 255 (takeWhile param_char rest)))
   \<and> (\<not> sublist ''GET '' (request_text d) \<or> \<not> sublist ''q='' (request_text d)
     \<longrightarrow> search_param d = Some ''default'')
   \<and> (request_text d = pre @ ''GET '' @ mid @ ''user='' @ rest
      \<and> \<not> sublist ''GET '' (pre @ ''GET'') \<and> \<not> sublist ''user='' (''GET '' @ mid @ ''user'')
     \<longrightarrow> auth_param d = Some (take 255 (takeWhile param_char rest)))
   \<and> (\<not> sublist ''GET '' (request_text d) \<or> \<not> sublist ''user='' (request_text d)
     \<longrightarrow> auth_param d = Some ''anonymous'')"
proof (intro conjI impI)
  assume "request_text d = pre @ ''GET '' @ mid @ ''q='' @ rest
      \<and> \<not> sublist ''GET '' (pre @ ''GET'') \<and> \<not> sublist ''q='' (''GET '' @ mid @ ''q'')"
  then show "search_param d = Some (take 255 (takeWhile param_char rest))"
    using param_value_at[of "''q=''" pre mid "''default''" rest]
    by (simp add: search_param_eq)
next
  assume "\<not> sublist ''GET '' (request_text d) \<or> \<not> sublist ''q='' (request_text d)"
  then show "search_param d = Some ''default''"
    using param_value_absent[of "''q=''" "request_text d" "''default''"]
    by (simp add: search_param_eq)
next
  assume "request_text d = pre @ ''GET '' @ mid @ ''user='' @ rest
      \<and> \<not> sublist ''GET '' (pre @ ''GET'') \<and> \<not> sublist ''user='' (''GET '' @ mid @ ''user'')"
  then show "auth_param d = Some (take 255 (takeWhile param_char rest))"
    using param_value_at[of "''user=''" pre mid "''anonymous''" rest]
    by (simp add: auth_param_eq)
next
  assume "\<not> sublist ''GET '' (request_text d) \<or> \<not> sublist ''user='' (request_text d)"
  then show "auth_param d = Some ''anonymous''"
    using param_value_absent[of "''user=''" "request_text d" "''anonymous''"]
    by (simp add: auth_param_eq)
qed

text \<open>
  C1 at four requests: a query and a user that are found, a request without \<^verbatim>\<open>q=\<close>
  and a request without \<^verbatim>\<open>GET \<close>.
\<close>

theorem extracted_parameter_witness:
  "search_param (''GET /search?q=hello HTTP/1.1'' @ CRLF @ CRLF) = Some ''hello''
   \<and> search_param (''GET /search HTTP/1.1'' @ CRLF @ CRLF) = Some ''default''
   \<and> auth_param (''GET /login?user=bob&x=1 HTTP/1.1'' @ CRLF @ CRLF) = Some ''bob''
   \<and> auth_param (''POST /login?user=bob'') = Some ''anonymous''"
proof -
  have 1: "search_param (''GET /search?q=hello HTTP/1.1'' @ CRLF @ CRLF) = Some ''hello''"
    using extracted_parameter[of "''GET /search?q=hello HTTP/1.1'' @ CRLF @ CRLF" "[]"
        "''/search?''" "''hello HTTP/1.1'' @ CRLF @ CRLF"]
    by (simp add: request_text_def NUL_def CRLF_def param_char_def sublist_Cons_right)
  have 2: "search_param (''GET /search HTTP/1.1'' @ CRLF @ CRLF) = Some ''default''"
    using extracted_parameter[of "''GET /search HTTP/1.1'' @ CRLF @ CRLF"]
    by (simp add: request_text_def NUL_def CRLF_def sublist_Cons_right)
  have 3: "auth_param (''GET /login?user=bob&x=1 HTTP/1.1'' @ CRLF @ CRLF) = Some ''bob''"
    using extracted_parameter[of "''GET /login?user=bob&x=1 HTTP/1.1'' @ CRLF @ CRLF" "[]"
        "''/login?''" "''bob&x=1 HTTP/1.1'' @ CRLF @ CRLF"]
    by (simp add: request_text_def NUL_def CRLF_def param_char_def sublist_Cons_right)
  have 4: "auth_param (''POST /login?user=bob'') = Some ''anonymous''"
    using extracted_parameter[of "''POST /login?user=bob''"]
    by (simp add: request_text_def NUL_def sublist_Cons_right)
  from 1 2 3 4 show ?thesis by simp
qed

text \<open>
  C1 as stated fails on a request that starts with a zero byte: the array
  \<^verbatim>\<open>buffer\<close> holds \<^verbatim>\<open>GET \<close>, later \<^verbatim>\<open>q=\<close> and then \<^verbatim>\<open>a\<close> up to its zero
  bytes, but \<^verbatim>\<open>strstr\<close> reads the empty C string and the parameter is the default.
\<close>

theorem zero_byte_counterexample:
  "request_buffer (NUL # ''GET /?q=a'')
     = [NUL] @ ''GET '' @ ''/?'' @ ''q='' @ ''a'' @ replicate 1014 NUL
   \<and> search_param (NUL # ''GET /?q=a'') = Some ''default''"
  by (simp add: search_param_eq request_text_def param_value_def request_buffer_def recv_def
        char_array_def)

section \<open>The response\<close>




text \<open>
  Claim C4. For every connection handled by the Token Issuer, the text in the
  \<^verbatim>\<open>token\<close> field of the JSON body is the token that \<^verbatim>\<open>generate_token\<close> leaves in
  its array; it is 32 characters long and each of them is in \<^verbatim>\<open>[A-Za-z0-9]\<close>.
\<close>

theorem token_32_alnum:
  \<open>\<exists>r g' u. auth_reply R pid g c = Some (r, g')
      \<and> auth_param (peer_bytes c) = Some u
      \<and> body_of r = ''{"user": "'' @ u @ ''", "token": "'' @ token_of R g
                        @ ''", "pid": '' @ show_int (sint pid)
                        @ '', "expires": '' @ show_int (sint (clock c + 3600)) @ ''}''
      \<and> generate_token R g (uninit 33 (junk c)) 33 = Some (token_of R g @ [NUL], g')
      \<and> length (token_of R g) = 32
      \<and> list_all alnum (token_of R g)\<close>
  by (simp add: auth_reply_eq auth_param_eq body_of_http_response auth_json_def
        generate_token_eq length_uninit token_of_length token_of_alnum)

text \<open>
  Claim C5, as amended. The Query Responder's body is the template
  \<^verbatim>\<open>{"query": "<q>", "results": ["result1", "result2", "result3"], "pid": <int>,
  "timestamp": <unix-seconds>}\<close>, with a space after each comma of the result list,
  filled with the extracted query, the process identifier and the clock. The Token
  Issuer's body is \<^verbatim>\<open>{"user": "<user>", "token": "<32-char-alnum>", "pid": <int>,
  "expires": <unix-seconds+3600>}\<close>, the expiry being the clock plus 3600 whenever
  that sum fits the 64-bit \<^verbatim>\<open>long\<close>.
\<close>

theorem json_body_templates:
  \<open>(\<exists>r q. search_reply pid c = Some r
        \<and> search_param (peer_bytes c) = Some q
        \<and> body_of r = ''{"query": "'' @ q
                          @ ''", "results": ["result1", "result2", "result3"], "pid": ''
                          @ show_int (sint pid)
                          @ '', "timestamp": '' @ show_int (sint (clock c)) @ ''}'')
   \<and> (sint (clock c) < 2 ^ 63 - 3600 \<longrightarrow>
        (\<exists>r g' u tk. auth_reply R pid g c = Some (r, g')
           \<and> auth_param (peer_bytes c) = Some u
           \<and> length tk = 32 \<and> list_all alnum tk
           \<and> body_of r = ''{"user": "'' @ u @ ''", "token": "'' @ tk
                             @ ''", "pid": '' @ show_int (sint pid)
                             @ '', "expires": '' @ show_int (sint (clock c) + 3600) @ ''}''))\<close>
proof (intro conjI impI)
  show \<open>\<exists>r q. search_reply pid c = Some r
        \<and> search_param (peer_bytes c) = Some q
        \<and> body_of r = ''{"query": "'' @ q
                          @ ''", "results": ["result1", "result2", "result3"], "pid": ''
                          @ show_int (sint pid)
                          @ '', "timestamp": '' @ show_int (sint (clock c)) @ ''}''\<close>
    by (simp add: search_reply_eq search_param_eq body_of_http_response search_json_def)
next
  assume "sint (clock c) < 2 ^ 63 - 3600"
  then have e: "sint (clock c + 3600) = sint (clock c) + 3600" by (rule expiry_no_overflow)
  have \<open>auth_reply R pid g c
           = Some (http_response
                     (length (auth_json (param_value ''user='' ''anonymous''
                                           (request_text (peer_bytes c)))
                                (token_of R g) pid (clock c + 3600)))
                     (auth_json (param_value ''user='' ''anonymous''
                                   (request_text (peer_bytes c)))
                        (token_of R g) pid (clock c + 3600)),
                   g\<lparr>calls := calls g + 32\<rparr>)
      \<and> auth_param (peer_bytes c)
           = Some (param_value ''user='' ''anonymous'' (request_text (peer_bytes c)))
      \<and> length (token_of R g) = 32 \<and> list_all alnum (token_of R g)\<close>
    by (simp add: auth_reply_eq auth_param_eq token_of_length token_of_alnum)
  then show \<open>\<exists>r g' u tk. auth_reply R pid g c = Some (r, g')
           \<and> auth_param (peer_bytes c) = Some u
           \<and> length tk = 32 \<and> list_all alnum tk
           \<and> body_of r = ''{"user": "'' @ u @ ''", "token": "'' @ tk
                             @ ''", "pid": '' @ show_int (sint pid)
                             @ '', "expires": '' @ show_int (sint (clock c) + 3600) @ ''}''\<close>
    by (intro exI[of _ "http_response _ _"] exI[of _ "g\<lparr>calls := calls g + 32\<rparr>"]
          exI[of _ "param_value ''user='' ''anonymous'' (request_text (peer_bytes c))"]
          exI[of _ "token_of R g"])
       (simp add: body_of_http_response auth_json_def e)
qed

text \<open>C5 as amended, at one request to each server.\<close>

theorem json_body_templates_witness:
  \<open>map_option body_of
      (search_reply 1234 \<lparr>accept_ret = 3, peer_bytes = ''GET /search?q=hello HTTP/1.1'',
                          clock = 1700000000, junk = []\<rparr>)
     = Some ''{"query": "hello", "results": ["result1", "result2", "result3"], "pid": 1234, "timestamp": 1700000000}''
   \<and> (\<exists>tk. length tk = 32 \<and> list_all alnum tk
        \<and> map_option (body_of \<circ> fst)
             (auth_reply (\<lambda>s k. unat s + k) 1234 (srand 1)
                \<lparr>accept_ret = 3, peer_bytes = ''GET /login?user=bob HTTP/1.1'',
                 clock = 1700000000, junk = []\<rparr>)
          = Some (''{"user": "bob", "token": "'' @ tk
                    @ ''", "pid": 1234, "expires": 1700003600}''))\<close>
proof -
  let ?c = "\<lparr>accept_ret = 3, peer_bytes = ''GET /search?q=hello HTTP/1.1'',
             clock = 1700000000, junk = []\<rparr>"
  let ?d = "\<lparr>accept_ret = 3, peer_bytes = ''GET /login?user=bob HTTP/1.1'',
             clock = 1700000000, junk = []\<rparr>"
  let ?R = "\<lambda>(s :: 32 word) k. unat s + k"
  have q: "search_param (peer_bytes ?c) = Some ''hello''"
    by (simp add: search_param_eq request_text_def NUL_def param_value_def param_char_def
          sublist_Cons_right)
  have u: "auth_param (peer_bytes ?d) = Some ''bob''"
    by (simp add: auth_param_eq request_text_def NUL_def param_value_def param_char_def
          sublist_Cons_right)
  have p: "show_int (sint (1234 :: 32 word)) = ''1234''"
    by (simp add: show_int_def show_nat_small show_nat_step digit_char_def)
  have t: "show_int (sint (1700000000 :: 64 word)) = ''1700000000''"
    by (simp add: show_int_def show_nat_small show_nat_step digit_char_def)
  have e: "show_int (sint (1700000000 :: 64 word) + 3600) = ''1700003600''"
    by (simp add: show_int_def show_nat_small show_nat_step digit_char_def)
  have h: "sint (clock ?d) < 2 ^ 63 - 3600" by simp
  from json_body_templates[of 1234 ?c ?R "srand 1", THEN conjunct1] q p t
  have 1: \<open>map_option body_of (search_reply 1234 ?c)
     = Some ''{"query": "hello", "results": ["result1", "result2", "result3"], "pid": 1234, "timestamp": 1700000000}''\<close>
    by auto
  from json_body_templates[of 1234 ?d ?R "srand 1", THEN conjunct2, rule_format, OF h]
  obtain r g' u' tk where a: "auth_reply ?R 1234 (srand 1) ?d = Some (r, g')"
    and b: "auth_param (peer_bytes ?d) = Some u'"
    and l: "length tk = 32" "list_all alnum tk"
    and c: \<open>body_of r = ''{"user": "'' @ u' @ ''", "token": "'' @ tk
                             @ ''", "pid": '' @ show_int (sint (1234 :: 32 word))
                             @ '', "expires": '' @ show_int (sint (clock ?d) + 3600) @ ''}''\<close>
    by blast
  have \<open>map_option (body_of \<circ> fst) (auth_reply ?R 1234 (srand 1) ?d)
     = Some (''{"user": "bob", "token": "'' @ tk
               @ ''", "pid": 1234, "expires": 1700003600}'')\<close>
    using a b c u p e by simp
  with l have 2: \<open>\<exists>tk. length tk = 32 \<and> list_all alnum tk
        \<and> map_option (body_of \<circ> fst) (auth_reply ?R 1234 (srand 1) ?d)
          = Some (''{"user": "bob", "token": "'' @ tk
                    @ ''", "pid": 1234, "expires": 1700003600}'')\<close>
    by blast
  from 1 2 show ?thesis by (rule conjI)
qed

text \<open>
  C5 as stated fails at the request \<^verbatim>\<open>GET /?q=x \<close> with process identifier 1
  and clock 0: the body sent has a space after each comma of the result list, the body
  the claim states has none.
\<close>

theorem results_list_counterexample:
  \<open>map_option body_of
      (search_reply 1 \<lparr>accept_ret = 3, peer_bytes = ''GET /?q=x '', clock = 0, junk = []\<rparr>)
     = Some ''{"query": "x", "results": ["result1", "result2", "result3"], "pid": 1, "timestamp": 0}''
   \<and> claimed_search_body ''x'' 1 0
     = ''{"query": "x", "results": ["result1","result2","result3"], "pid": 1, "timestamp": 0}''
   \<and> claimed_search_body ''x'' 1 0
     \<noteq> ''{"query": "x", "results": ["result1", "result2", "result3"], "pid": 1, "timestamp": 0}''\<close>
  by (simp add: search_reply_eq body_of_http_response search_json_def claimed_search_body_def
        request_text_def NUL_def param_value_def param_char_def sublist_Cons_right
        show_int_def show_nat_small digit_char_def)

section \<open>Where the marker is matched, and when the default is used\<close>

text \<open>
  Claim C9, as amended. The marker is matched as a raw substring of the request text
  (the received bytes up to the first zero byte): with \<open>g\<close> the offset of the first
  \<^verbatim>\<open>GET \<close> and \<open>m\<close> the first offset from \<open>g\<close> on at which the marker stands,
  whatever precedes or follows it there, the parameter is read from offset \<open>m\<close> plus
  the marker's length: up to the first space or ampersand or the end of the text, at
  most 255 bytes.
\<close>

theorem first_occurrence_wins:
  "(occurs_at ''GET '' (request_text d) g
      \<and> list_all (\<lambda>j. \<not> occurs_at ''GET '' (request_text d) j) [0..<g]
      \<and> g \<le> m \<and> occurs_at ''q='' (request_text d) m
      \<and> list_all (\<lambda>j. \<not> occurs_at ''q='' (request_text d) j) [g..<m]
     \<longrightarrow> search_param d
           = Some (take 255 (takeWhile param_char (drop (m + 2) (request_text d)))))
   \<and> (occurs_at ''GET '' (request_text d) g
      \<and> list_all (\<lambda>j. \<not> occurs_at ''GET '' (request_text d) j) [0..<g]
      \<and> g \<le> m \<and> occurs_at ''user='' (request_text d) m
      \<and> list_all (\<lambda>j. \<not> occurs_at ''user='' (request_text d) j) [g..<m]
     \<longrightarrow> auth_param d
           = Some (take 255 (takeWhile param_char (drop (m + 5) (request_text d)))))"
proof (intro conjI impI)
  assume "occurs_at ''GET '' (request_text d) g
      \<and> list_all (\<lambda>j. \<not> occurs_at ''GET '' (request_text d) j) [0..<g]
      \<and> g \<le> m \<and> occurs_at ''q='' (request_text d) m
      \<and> list_all (\<lambda>j. \<not> occurs_at ''q='' (request_text d) j) [g..<m]"
  then have "param_value ''q='' ''default'' (request_text d)
      = take 255 (takeWhile param_char (drop (m + length ''q='') (request_text d)))"
    by (intro param_value_pos[of _ _ g]) simp_all
  moreover have "length ''q='' = 2" by simp
  ultimately show "search_param d
      = Some (take 255 (takeWhile param_char (drop (m + 2) (request_text d))))"
    unfolding search_param_eq by (simp only:)
next
  assume "occurs_at ''GET '' (request_text d) g
      \<and> list_all (\<lambda>j. \<not> occurs_at ''GET '' (request_text d) j) [0..<g]
      \<and> g \<le> m \<and> occurs_at ''user='' (request_text d) m
      \<and> list_all (\<lambda>j. \<not> occurs_at ''user='' (request_text d) j) [g..<m]"
  then have "param_value ''user='' ''anonymous'' (request_text d)
      = take 255 (takeWhile param_char (drop (m + length ''user='') (request_text d)))"
    by (intro param_value_pos[of _ _ g]) simp_all
  moreover have "length ''user='' = 5" by simp
  ultimately show "auth_param d
      = Some (take 255 (takeWhile param_char (drop (m + 5) (request_text d))))"
    unfolding auth_param_eq by (simp only:)
qed

text \<open>
  C9 at the requests of the claim: \<^verbatim>\<open>q=\<close> inside \<^verbatim>\<open>freq=\<close>, the first of two
  \<^verbatim>\<open>q=\<close>, and a marker in a header line after the request line (for the Token
  Issuer the value then runs on through the carriage return and line feed, which do
  not end it).
\<close>

theorem first_occurrence_wins_witness:
  "search_param ''GET /x?freq=5'' = Some ''5''
   \<and> search_param ''GET /?q=1&q=2 HTTP/1.1'' = Some ''1''
   \<and> search_param (''GET /a HTTP/1.1'' @ CRLF @ ''Referer: /b?q=7&p=1'' @ CRLF) = Some ''7''
   \<and> auth_param (''GET / HTTP/1.1'' @ CRLF @ ''X-From: user=bob'' @ CRLF) = Some (''bob'' @ CRLF)"
proof -
  have 1: "search_param ''GET /x?freq=5'' = Some ''5''"
    using first_occurrence_wins[of "''GET /x?freq=5''" 0 10, THEN conjunct1]
    by (simp add: request_text_def NUL_def occurs_at_def param_char_def upt_rec)
  have 2: "search_param ''GET /?q=1&q=2 HTTP/1.1'' = Some ''1''"
    using first_occurrence_wins[of "''GET /?q=1&q=2 HTTP/1.1''" 0 6, THEN conjunct1]
    by (simp add: request_text_def NUL_def occurs_at_def param_char_def upt_rec)
  have 3: "search_param (''GET /a HTTP/1.1'' @ CRLF @ ''Referer: /b?q=7&p=1'' @ CRLF) = Some ''7''"
    using first_occurrence_wins[of "''GET /a HTTP/1.1'' @ CRLF @ ''Referer: /b?q=7&p=1'' @ CRLF"
        0 29, THEN conjunct1]
    by (simp add: request_text_def NUL_def CRLF_def occurs_at_def param_char_def upt_rec)
  have 4: "auth_param (''GET / HTTP/1.1'' @ CRLF @ ''X-From: user=bob'' @ CRLF)
             = Some (''bob'' @ CRLF)"
    using first_occurrence_wins[of "''GET / HTTP/1.1'' @ CRLF @ ''X-From: user=bob'' @ CRLF"
        0 24, THEN conjunct2]
    by (simp add: request_text_def NUL_def CRLF_def occurs_at_def param_char_def upt_rec)
  from 1 2 3 4 show ?thesis by simp
qed

text \<open>
  C9 as stated fails when a zero byte stands between \<^verbatim>\<open>GET \<close> and the marker: the
  array \<^verbatim>\<open>buffer\<close> holds \<^verbatim>\<open>q=\<close> after its first \<^verbatim>\<open>GET \<close>, but that occurrence
  is not matched and the parameter is the default.
\<close>

theorem marker_after_zero_byte_counterexample:
  "request_buffer (''GET /'' @ [NUL] @ ''?q=1'')
     = ''GET '' @ ''/'' @ [NUL] @ ''?'' @ ''q='' @ ''1'' @ replicate 1014 NUL
   \<and> search_param (''GET /'' @ [NUL] @ ''?q=1'') = Some ''default''"
  by (simp add: search_param_eq request_text_def param_value_def request_buffer_def recv_def
        char_array_def sublist_Cons_right)

text \<open>
  Claim C10, as amended. The default is used if and only if the marker does not
  occur in the request text from its first \<^verbatim>\<open>GET \<close> on (a part that is empty when
  the text has no \<^verbatim>\<open>GET \<close>): otherwise the parameter is what follows the first
  marker there. When that marker is followed at once by a space, an ampersand or the
  end of the text, the parameter is the empty string and the JSON field is emitted
  empty.
\<close>

theorem default_only_without_marker:
  \<open>search_param (peer_bytes c)
     = Some (if sublist ''q='' (from_first ''GET '' (request_text (peer_bytes c)))
             then take 255 (takeWhile param_char
                    (drop 2 (from_first ''q='' (from_first ''GET '' (request_text (peer_bytes c))))))
             else ''default'')
   \<and> auth_param (peer_bytes c)
     = Some (if sublist ''user='' (from_first ''GET '' (request_text (peer_bytes c)))
             then take 255 (takeWhile param_char
                    (drop 5 (from_first ''user='' (from_first ''GET '' (request_text (peer_bytes c))))))
             else ''anonymous'')
   \<and> (sublist ''q='' (from_first ''GET '' (request_text (peer_bytes c)))
        \<and> list_all (\<lambda>x. \<not> param_char x)
             (take 1 (drop 2 (from_first ''q='' (from_first ''GET '' (request_text (peer_bytes c))))))
       \<longrightarrow> search_param (peer_bytes c) = Some []
           \<and> (\<exists>r. search_reply pid c = Some r
                 \<and> body_of r = ''{"query": "", "results": ["result1", "result2", "result3"], "pid": ''
                                   @ show_int (sint pid)
                                   @ '', "timestamp": '' @ show_int (sint (clock c)) @ ''}''))
   \<and> (sublist ''user='' (from_first ''GET '' (request_text (peer_bytes c)))
        \<and> list_all (\<lambda>x. \<not> param_char x)
             (take 1 (drop 5 (from_first ''user='' (from_first ''GET '' (request_text (peer_bytes c))))))
       \<longrightarrow> auth_param (peer_bytes c) = Some []
           \<and> (\<exists>r g'. auth_reply R pid g c = Some (r, g')
                 \<and> body_of r = ''{"user": "", "token": "'' @ token_of R g
                                   @ ''", "pid": '' @ show_int (sint pid)
                                   @ '', "expires": '' @ show_int (sint (clock c + 3600)) @ ''}''))\<close>
proof (intro conjI impI)
  show "search_param (peer_bytes c)
     = Some (if sublist ''q='' (from_first ''GET '' (request_text (peer_bytes c)))
             then take 255 (takeWhile param_char
                    (drop 2 (from_first ''q='' (from_first ''GET '' (request_text (peer_bytes c))))))
             else ''default'')"
    by (simp only: search_param_eq param_value_q)
  show "auth_param (peer_bytes c)
     = Some (if sublist ''user='' (from_first ''GET '' (request_text (peer_bytes c)))
             then take 255 (takeWhile param_char
                    (drop 5 (from_first ''user='' (from_first ''GET '' (request_text (peer_bytes c))))))
             else ''anonymous'')"
    by (simp only: auth_param_eq param_value_user)
next
  assume a: "sublist ''q='' (from_first ''GET '' (request_text (peer_bytes c)))
        \<and> list_all (\<lambda>x. \<not> param_char x)
             (take 1 (drop 2 (from_first ''q='' (from_first ''GET '' (request_text (peer_bytes c))))))"
  then have v: "param_value ''q='' ''default'' (request_text (peer_bytes c)) = []"
    using empty_value[of "drop 2 (from_first ''q='' (from_first ''GET '' (request_text (peer_bytes c))))"]
    by (simp only: param_value_q if_True)
  show "search_param (peer_bytes c) = Some []" using v by (simp add: search_param_eq)
  show \<open>\<exists>r. search_reply pid c = Some r
          \<and> body_of r = ''{"query": "", "results": ["result1", "result2", "result3"], "pid": ''
                            @ show_int (sint pid)
                            @ '', "timestamp": '' @ show_int (sint (clock c)) @ ''}''\<close>
    using v by (simp add: search_reply_eq body_of_http_response search_json_def)
next
  assume a: "sublist ''user='' (from_first ''GET '' (request_text (peer_bytes c)))
        \<and> list_all (\<lambda>x. \<not> param_char x)
             (take 1 (drop 5 (from_first ''user='' (from_first ''GET '' (request_text (peer_bytes c))))))"
  then have v: "param_value ''user='' ''anonymous'' (request_text (peer_bytes c)) = []"
    using empty_value[of "drop 5 (from_first ''user='' (from_first ''GET '' (request_text (peer_bytes c))))"]
    by (simp only: param_value_user if_True)
  show "auth_param (peer_bytes c) = Some []" using v by (simp add: auth_param_eq)
  show \<open>\<exists>r g'. auth_reply R pid g c = Some (r, g')
          \<and> body_of r = ''{"user": "", "token": "'' @ token_of R g
                            @ ''", "pid": '' @ show_int (sint pid)
                            @ '', "expires": '' @ show_int (sint (clock c + 3600)) @ ''}''\<close>
    using v by (simp add: auth_reply_eq body_of_http_response auth_json_def)
qed

text \<open>
  C10 at \<^verbatim>\<open>GET /x?q=&y\<close>, at a \<^verbatim>\<open>user=\<close> followed by a space, and at a request
  without the marker.
\<close>

theorem default_only_without_marker_witness:
  \<open>search_param ''GET /x?q=&y'' = Some []
   \<and> map_option body_of
        (search_reply 7 \<lparr>accept_ret = 3, peer_bytes = ''GET /x?q=&y'', clock = 5, junk = []\<rparr>)
     = Some ''{"query": "", "results": ["result1", "result2", "result3"], "pid": 7, "timestamp": 5}''
   \<and> auth_param ''GET /x?user= HTTP/1.1'' = Some []
   \<and> map_option (body_of \<circ> fst)
        (auth_reply (\<lambda>s k. unat s + k) 7 (srand 1)
           \<lparr>accept_ret = 3, peer_bytes = ''GET /x?user= HTTP/1.1'', clock = 5, junk = []\<rparr>)
     = Some (''{"user": "", "token": "'' @ token_of (\<lambda>s k. unat s + k) (srand 1)
               @ ''", "pid": 7, "expires": 3605}'')
   \<and> search_param ''GET /x?y=1'' = Some ''default''\<close>
proof -
  let ?c = "\<lparr>accept_ret = 3, peer_bytes = ''GET /x?q=&y'', clock = 5, junk = []\<rparr>"
  let ?d = "\<lparr>accept_ret = 3, peer_bytes = ''GET /x?user= HTTP/1.1'', clock = 5, junk = []\<rparr>"
  let ?e = "\<lparr>accept_ret = 3, peer_bytes = ''GET /x?y=1'', clock = 5, junk = []\<rparr>"
  let ?R = "\<lambda>(s :: 32 word) k. unat s + k"
  have p: "show_int (sint (7 :: 32 word)) = ''7''" "show_int (sint (5 :: 64 word)) = ''5''"
    "show_int (sint (5 + 3600 :: 64 word)) = ''3605''"
    by (simp_all add: show_int_def show_nat_small show_nat_step digit_char_def)
  have 1: \<open>search_param (peer_bytes ?c) = Some []
           \<and> (\<exists>r. search_reply 7 ?c = Some r
                 \<and> body_of r = ''{"query": "", "results": ["result1", "result2", "result3"], "pid": ''
                                   @ show_int (sint (7 :: 32 word))
                                   @ '', "timestamp": '' @ show_int (sint (clock ?c)) @ ''}'')\<close>
    using default_only_without_marker[of ?c 7 ?R "srand 1", THEN conjunct2, THEN conjunct2,
        THEN conjunct1]
    by (simp add: request_text_def NUL_def param_char_def sublist_Cons_right)
  have 2: \<open>auth_param (peer_bytes ?d) = Some []
           \<and> (\<exists>r g'. auth_reply ?R 7 (srand 1) ?d = Some (r, g')
                 \<and> body_of r = ''{"user": "", "token": "'' @ token_of ?R (srand 1)
                                   @ ''", "pid": '' @ show_int (sint (7 :: 32 word))
                                   @ '', "expires": '' @ show_int (sint (clock ?d + 3600)) @ ''}'')\<close>
    using default_only_without_marker[of ?d 7 ?R "srand 1", THEN conjunct2, THEN conjunct2,
        THEN conjunct2]
    by (simp add: request_text_def NUL_def param_char_def sublist_Cons_right)
  have 3: "search_param (peer_bytes ?e) = Some ''default''"
    using default_only_without_marker[of ?e 7 ?R "srand 1", THEN conjunct1]
    by (simp add: request_text_def NUL_def sublist_Cons_right)
  from 1 2 3 p show ?thesis by auto
qed

text \<open>
  C10 as stated fails at \<^verbatim>\<open>q=1 GET /x\<close>: the buffer holds both \<^verbatim>\<open>GET \<close> and
  \<^verbatim>\<open>q=\<close>, but the marker stands before \<^verbatim>\<open>GET \<close>, the search from \<^verbatim>\<open>GET \<close> on
  finds none and the default is used.
\<close>

theorem marker_before_GET_counterexample:
  "sublist ''GET '' (request_text ''q=1 GET /x'')
   \<and> sublist ''q='' (request_text ''q=1 GET /x'')
   \<and> search_param ''q=1 GET /x'' = Some ''default''"
  by (simp add: search_param_eq request_text_def NUL_def param_value_def sublist_Cons_right)

section \<open>The token's characters\<close>

text \<open>
  Claim C6, as amended. \<^verbatim>\<open>generate_token\<close> fills the 33-byte array with
  \<^verbatim>\<open>charset[r % 62]\<close> for the next 32 values \<open>r\<close> of \<^verbatim>\<open>rand()\<close> and a zero
  byte, and leaves the generator 32 calls on. Of the values 0, ..., \<^verbatim>\<open>RAND_MAX\<close>
  the character at index \<open>k\<close> of the alphabet is chosen by \<open>(RAND_MAX + 1) div 62\<close>
  values, and by one more when \<open>k < (RAND_MAX + 1) mod 62\<close>: with equally likely
  values the 62 characters are equally likely exactly when 62 divides
  \<open>RAND_MAX + 1\<close>. With two arguments on the command line \<^verbatim>\<open>srand\<close> is called
  exactly once, with the clock exclusive-ORed with the process identifier and cut to 32
  bits, whatever happens afterwards. When the startup succeeds and no earlier turn has
  ended the process, the token sent on an accepted connection is made of the values
  that this one seed gives at the calls \<open>32 n\<close>, ..., \<open>32 n + 31\<close>, where \<open>n\<close> is
  the number of connections accepted before: the loop never reseeds and no other call
  advances the generator.
\<close>

theorem token_character_distribution:
  \<open>(k < 62 \<longrightarrow> picks rand_max (charset ! k)
                  = Suc rand_max div 62 + (if k < Suc rand_max mod 62 then 1 else 0))
   \<and> ((picks rand_max (charset ! 0) = picks rand_max (charset ! 61))
        = (Suc rand_max mod 62 = 0))
   \<and> pick r0 = Some (charset ! (r0 mod 62))
   \<and> generate_token R g (uninit 33 stack) 33
        = Some (map (\<lambda>i. charset ! (R (seed g) (calls g + i) mod 62)) [0..<32] @ [NUL],
                g\<lparr>calls := calls g + 32\<rparr>)
   \<and> (length argv = 2 \<longrightarrow>
        (\<exists>t out. auth_main R argv pid t0 os cs = Some (t, out)
           \<and> filter is_srand t = [Srand (ucast (t0 XOR scast pid))]))
   \<and> (length argv = 2 \<and> \<not> socket_ret os < 0 \<and> \<not> setsockopt_ret os < 0
        \<and> \<not> bind_ret os < 0 \<and> \<not> listen_ret os < 0
        \<and> \<not> list_ex ends_process cs \<and> \<not> accept_ret c < 0 \<longrightarrow>
        (\<exists>t r u. auth_main R argv pid t0 os (cs @ [c])
                    = Some (t @ Send (accept_ret c) r
                                # (if sigpipe c then [] else [Close (accept_ret c)]),
                            if sigpipe c then Killed else Loop)
           \<and> auth_param (peer_bytes c) = Some u
           \<and> body_of r
               = ''{"user": "'' @ u @ ''", "token": "''
                 @ map (\<lambda>i. charset ! (R (ucast (t0 XOR scast pid))
                          (32 * length (filter (\<lambda>x. \<not> accept_ret x < 0) cs) + i) mod 62))
                     [0..<32]
                 @ ''", "pid": '' @ show_int (sint pid)
                 @ '', "expires": '' @ show_int (sint (clock c + 3600)) @ ''}''))\<close>
proof (intro conjI impI)
  assume "k < 62"
  then show "picks rand_max (charset ! k)
      = Suc rand_max div 62 + (if k < Suc rand_max mod 62 then 1 else 0)"
    by (rule picks_count)
next
  show "(picks rand_max (charset ! 0) = picks rand_max (charset ! 61))
       = (Suc rand_max mod 62 = 0)"
    by (rule picks_first_last)
next
  show "pick r0 = Some (charset ! (r0 mod 62))" by (rule pick_eq)
next
  show "generate_token R g (uninit 33 stack) 33
        = Some (map (\<lambda>i. charset ! (R (seed g) (calls g + i) mod 62)) [0..<32] @ [NUL],
                g\<lparr>calls := calls g + 32\<rparr>)"
    by (rule generate_token_uninit)
next
  assume "length argv = 2"
  from auth_main_srand[OF this, of R pid t0 os cs]
  show "\<exists>t out. auth_main R argv pid t0 os cs = Some (t, out)
           \<and> filter is_srand t = [Srand (ucast (t0 XOR scast pid))]"
    unfolding auth_seed_def .
next
  let ?n = "length (filter (\<lambda>x. \<not> accept_ret x < 0) cs)"
  let ?tok = "map (\<lambda>i. charset ! (R (ucast (t0 XOR scast pid)) (32 * ?n + i) mod 62)) [0..<32]"
  let ?u = "param_value ''user='' ''anonymous'' (request_text (peer_bytes c))"
  let ?r = "http_response (length (auth_json ?u ?tok pid (clock c + 3600)))
              (auth_json ?u ?tok pid (clock c + 3600))"
  assume a: "length argv = 2 \<and> \<not> socket_ret os < 0 \<and> \<not> setsockopt_ret os < 0
        \<and> \<not> bind_ret os < 0 \<and> \<not> listen_ret os < 0
        \<and> \<not> list_ex ends_process cs \<and> \<not> accept_ret c < 0"
  then have "\<exists>t. auth_main R argv pid t0 os (cs @ [c])
           = Some (t @ Send (accept_ret c) ?r
                      # (if sigpipe c then [] else [Close (accept_ret c)]),
                   if sigpipe c then Killed else Loop)"
    using auth_main_last[of argv os cs c R pid t0] unfolding auth_seed_def by blast
  then obtain t where m: "auth_main R argv pid t0 os (cs @ [c])
           = Some (t @ Send (accept_ret c) ?r
                      # (if sigpipe c then [] else [Close (accept_ret c)]),
                   if sigpipe c then Killed else Loop)" by (rule exE)
  have u: "auth_param (peer_bytes c) = Some ?u" by (rule auth_param_eq)
  have b: \<open>body_of ?r
               = ''{"user": "'' @ ?u @ ''", "token": "'' @ ?tok
                 @ ''", "pid": '' @ show_int (sint pid)
                 @ '', "expires": '' @ show_int (sint (clock c + 3600)) @ ''}''\<close>
    unfolding body_of_http_response auth_json_def by (rule refl)
  show \<open>\<exists>t r u. auth_main R argv pid t0 os (cs @ [c])
                    = Some (t @ Send (accept_ret c) r
                                # (if sigpipe c then [] else [Close (accept_ret c)]),
                            if sigpipe c then Killed else Loop)
           \<and> auth_param (peer_bytes c) = Some u
           \<and> body_of r
               = ''{"user": "'' @ u @ ''", "token": "''
                 @ map (\<lambda>i. charset ! (R (ucast (t0 XOR scast pid))
                          (32 * length (filter (\<lambda>x. \<not> accept_ret x < 0) cs) + i) mod 62))
                     [0..<32]
                 @ ''", "pid": '' @ show_int (sint pid)
                 @ '', "expires": '' @ show_int (sint (clock c + 3600)) @ ''}''\<close>
    by (intro exI[of _ t] exI[of _ ?r] exI[of _ ?u] conjI) (rule m, rule u, rule b)
qed

text \<open>
  C6 as amended, at glibc's \<^verbatim>\<open>RAND_MAX\<close> and at a start with a port argument that
  serves two connections: the second token is made of the values at the calls 32 to 63.
\<close>

theorem token_character_distribution_witness:
  \<open>picks 2147483647 (CHR ''a'') = 34636834
   \<and> (\<exists>t out. auth_main (\<lambda>s k. unat s + k) [''auth'', ''8080''] 7 1700000000
                 \<lparr>atoi_ret = 8080, socket_ret = 3, setsockopt_ret = 0, bind_ret = 0,
                  listen_ret = 0\<rparr>
                 [\<lparr>accept_ret = 4, peer_bytes = ''GET /?user=al'', clock = 5, junk = [],
                   sigpipe = False\<rparr>] = Some (t, out)
          \<and> filter is_srand t = [Srand (ucast ((1700000000 :: 64 word) XOR scast (7 :: 32 word)))])
   \<and> (\<exists>t r. auth_main (\<lambda>s k. unat s + k) [''auth'', ''8080''] 7 1700000000
                 \<lparr>atoi_ret = 8080, socket_ret = 3, setsockopt_ret = 0, bind_ret = 0,
                  listen_ret = 0\<rparr>
                 [\<lparr>accept_ret = 4, peer_bytes = ''GET /?user=al'', clock = 5, junk = [],
                   sigpipe = False\<rparr>,
                  \<lparr>accept_ret = 5, peer_bytes = ''GET /?user=bob'', clock = 6, junk = [],
                   sigpipe = False\<rparr>]
              = Some (t @ [Send 5 r, Close 5], Loop)
          \<and> body_of r
              = ''{"user": "bob", "token": "''
                @ map (\<lambda>i. charset ! ((unat (ucast ((1700000000 :: 64 word)
                                                 XOR scast (7 :: 32 word)) :: 32 word)
                                         + (32 + i)) mod 62)) [0..<32]
                @ ''", "pid": 7, "expires": 3606}'')\<close>
proof -
  let ?R = "\<lambda>(s :: 32 word) k. unat s + k"
  let ?os = "\<lparr>atoi_ret = 8080, socket_ret = 3, setsockopt_ret = 0, bind_ret = 0,
              listen_ret = 0\<rparr>"
  let ?a = "\<lparr>accept_ret = 4, peer_bytes = ''GET /?user=al'', clock = 5, junk = [],
             sigpipe = False\<rparr>"
  let ?b = "\<lparr>accept_ret = 5, peer_bytes = ''GET /?user=bob'', clock = 6, junk = [],
             sigpipe = False\<rparr>"
  note w = token_character_distribution[of 0 2147483647 0 ?R "srand 1" "[]"
      "[''auth'', ''8080'']" 7 1700000000 ?os "[?a]" ?b]
  have 1: "picks 2147483647 (CHR ''a'') = 34636834"
    using w[THEN conjunct1] by (simp add: charset_0)
  have 2: "\<exists>t out. auth_main ?R [''auth'', ''8080''] 7 1700000000 ?os [?a] = Some (t, out)
          \<and> filter is_srand t = [Srand (ucast ((1700000000 :: 64 word) XOR scast (7 :: 32 word)))]"
    using w[THEN conjunct2, THEN conjunct2, THEN conjunct2, THEN conjunct2, THEN conjunct1]
    by simp
  have u: "auth_param ''GET /?user=bob'' = Some ''bob''"
    by (simp add: auth_param_eq request_text_def NUL_def param_value_def param_char_def
          sublist_Cons_right)
  have p: "show_int 7 = ''7''" and e: "show_int 3606 = ''3606''"
    by (simp_all add: show_int_def show_nat.simps digit_char_def)
  have 3: \<open>\<exists>t r. auth_main ?R [''auth'', ''8080''] 7 1700000000 ?os [?a, ?b]
              = Some (t @ [Send 5 r, Close 5], Loop)
          \<and> body_of r
              = ''{"user": "bob", "token": "''
                @ map (\<lambda>i. charset ! ((unat (ucast ((1700000000 :: 64 word)
                                                 XOR scast (7 :: 32 word)) :: 32 word)
                                         + (32 + i)) mod 62)) [0..<32]
                @ ''", "pid": 7, "expires": 3606}''\<close>
    using w[THEN conjunct2, THEN conjunct2, THEN conjunct2, THEN conjunct2, THEN conjunct2]
    by (simp add: ends_process_def u p e del: upt_rec_numeral)
  from 1 2 3 show ?thesis by blast
qed

text \<open>
  C6 as stated fails for glibc's \<^verbatim>\<open>RAND_MAX\<close> = 2147483647: of its 2147483648
  equally likely values, 34636834 choose \<^verbatim>\<open>a\<close> and 34636833 choose \<^verbatim>\<open>c\<close>.
\<close>

theorem modulo_bias_counterexample:
  "picks 2147483647 (CHR ''a'') = 34636834 \<and> picks 2147483647 (CHR ''c'') = 34636833"
  using picks_count[of 0 2147483647] picks_count[of 2 2147483647]
  by (simp add: charset_0 charset_2)

section \<open>The accept loop and the startup\<close>

text \<open>
  Claim C7, as amended. The loop is run on the answers \<open>cs\<close> to its successive
  \<^verbatim>\<open>accept\<close> calls. A turn whose \<^verbatim>\<open>accept\<close> fails makes that call alone, leaves
  the generator's state as it was, and the loop goes on with the next answer. A turn
  whose \<^verbatim>\<open>accept\<close> succeeds reads the connection and sends the reply of
  \<^verbatim>\<open>send_response\<close>; when the peer has not reset the connection the turn closes the
  descriptor and the loop goes on with the next answer, so the connection is read,
  answered and closed before the next \<^verbatim>\<open>accept\<close>. When the peer has reset the
  connection, \<^verbatim>\<open>send\<close> raises \<^verbatim>\<open>SIGPIPE\<close> and the process ends inside it: the
  descriptor is not closed and no later answer is looked at. In every case the loop
  returns no fault, its calls follow the state machine, it makes one \<^verbatim>\<open>accept\<close>
  call for each answer up to and including the first one that ends the process, and it
  is left only when the process is ended so.
\<close>

theorem accept_loop_sequential:
  "search_loop pid [] = Some ([], Loop)
   \<and> auth_loop R pid g [] = Some ([], g, Loop)
   \<and> (accept_ret c < 0
       \<longrightarrow> search_loop pid (c # cs)
             = map_option (\<lambda>(ts, out). (Accept (accept_ret c) # ts, out)) (search_loop pid cs)
           \<and> auth_loop R pid g (c # cs)
             = map_option (\<lambda>(ts, g', out). (Accept (accept_ret c) # ts, g', out))
                 (auth_loop R pid g cs))
   \<and> (\<not> accept_ret c < 0
       \<longrightarrow> (\<exists>r. search_reply pid c = Some r
              \<and> search_loop pid (c # cs)
                  = (if sigpipe c
                     then Some ([Accept (accept_ret c), Recv (accept_ret c),
                                 Send (accept_ret c) r], Killed)
                     else map_option
                            (\<lambda>(ts, out). (Accept (accept_ret c) # Recv (accept_ret c)
                                # Send (accept_ret c) r # Close (accept_ret c) # ts, out))
                            (search_loop pid cs)))
           \<and> (\<exists>r. auth_reply R pid g c = Some (r, g\<lparr>calls := calls g + 32\<rparr>)
              \<and> auth_loop R pid g (c # cs)
                  = (if sigpipe c
                     then Some ([Accept (accept_ret c), Recv (accept_ret c),
                                 Send (accept_ret c) r], g\<lparr>calls := calls g + 32\<rparr>, Killed)
                     else map_option
                            (\<lambda>(ts, g', out). (Accept (accept_ret c) # Recv (accept_ret c)
                                # Send (accept_ret c) r # Close (accept_ret c) # ts, g', out))
                            (auth_loop R pid (g\<lparr>calls := calls g + 32\<rparr>) cs))))
   \<and> (\<exists>t out. search_loop pid cs = Some (t, out) \<and> sequential t
        \<and> length (filter is_accept t) = turns_made cs
        \<and> out = (if list_ex ends_process cs then Killed else Loop))
   \<and> (\<exists>t g' out. auth_loop R pid g cs = Some (t, g', out) \<and> sequential t
        \<and> length (filter is_accept t) = turns_made cs
        \<and> out = (if list_ex ends_process cs then Killed else Loop))"
proof (intro conjI impI)
  show "search_loop pid [] = Some ([], Loop)" by simp
  show "auth_loop R pid g [] = Some ([], g, Loop)" by simp
next
  assume a: "accept_ret c < 0"
  then show "search_loop pid (c # cs)
             = map_option (\<lambda>(ts, out). (Accept (accept_ret c) # ts, out)) (search_loop pid cs)"
    by (rule search_loop_failed)
  from a show "auth_loop R pid g (c # cs)
             = map_option (\<lambda>(ts, g', out). (Accept (accept_ret c) # ts, g', out))
                 (auth_loop R pid g cs)"
    by (rule auth_loop_failed)
next
  assume a: "\<not> accept_ret c < 0"
  then show "\<exists>r. search_reply pid c = Some r
              \<and> search_loop pid (c # cs)
                  = (if sigpipe c
                     then Some ([Accept (accept_ret c), Recv (accept_ret c),
                                 Send (accept_ret c) r], Killed)
                     else map_option
                            (\<lambda>(ts, out). (Accept (accept_ret c) # Recv (accept_ret c)
                                # Send (accept_ret c) r # Close (accept_ret c) # ts, out))
                            (search_loop pid cs))"
    by (rule search_loop_accepted)
  from a show "\<exists>r. auth_reply R pid g c = Some (r, g\<lparr>calls := calls g + 32\<rparr>)
              \<and> auth_loop R pid g (c # cs)
                  = (if sigpipe c
                     then Some ([Accept (accept_ret c), Recv (accept_ret c),
                                 Send (accept_ret c) r], g\<lparr>calls := calls g + 32\<rparr>, Killed)
                     else map_option
                            (\<lambda>(ts, g', out). (Accept (accept_ret c) # Recv (accept_ret c)
                                # Send (accept_ret c) r # Close (accept_ret c) # ts, g', out))
                            (auth_loop R pid (g\<lparr>calls := calls g + 32\<rparr>) cs))"
    by (rule auth_loop_accepted)
next
  show "\<exists>t out. search_loop pid cs = Some (t, out) \<and> sequential t
        \<and> length (filter is_accept t) = turns_made cs
        \<and> out = (if list_ex ends_process cs then Killed else Loop)"
    by (rule search_loop_runs)
  show "\<exists>t g' out. auth_loop R pid g cs = Some (t, g', out) \<and> sequential t
        \<and> length (filter is_accept t) = turns_made cs
        \<and> out = (if list_ex ends_process cs then Killed else Loop)"
    using auth_loop_runs[of R pid g cs] by blast
qed

text \<open>
  C7 as amended, at a failed \<^verbatim>\<open>accept\<close> followed by a served connection, for both
  servers: five calls, the reply of the Query Responder in full, and the generator 32
  calls on.
\<close>

theorem accept_loop_sequential_witness:
  "search_loop 7 [\<lparr>accept_ret = - 1, peer_bytes = ''GET /?q=a'', clock = 5, junk = [],
                    sigpipe = False\<rparr>,
                  \<lparr>accept_ret = 4, peer_bytes = ''GET /?q=a'', clock = 5, junk = [],
                    sigpipe = False\<rparr>]
     = Some ([Accept (- 1), Accept 4, Recv 4,
              Send 4 (http_response (length (search_json ''a'' 7 5)) (search_json ''a'' 7 5)),
              Close 4], Loop)
   \<and> (\<exists>r. auth_loop (\<lambda>s k. unat s + k) 7 (srand 1)
             [\<lparr>accept_ret = - 1, peer_bytes = ''GET /?user=a'', clock = 5, junk = [],
               sigpipe = False\<rparr>,
              \<lparr>accept_ret = 4, peer_bytes = ''GET /?user=a'', clock = 5, junk = [],
               sigpipe = False\<rparr>]
           = Some ([Accept (- 1), Accept 4, Recv 4, Send 4 r, Close 4],
                   (srand 1)\<lparr>calls := 32\<rparr>, Loop))"
proof -
  let ?f = "\<lparr>accept_ret = - 1, peer_bytes = ''GET /?q=a'', clock = 5, junk = [],
             sigpipe = False\<rparr>"
  let ?k = "\<lparr>accept_ret = 4, peer_bytes = ''GET /?q=a'', clock = 5, junk = [],
             sigpipe = False\<rparr>"
  let ?f' = "\<lparr>accept_ret = - 1, peer_bytes = ''GET /?user=a'', clock = 5, junk = [],
             sigpipe = False\<rparr>"
  let ?k' = "\<lparr>accept_ret = 4, peer_bytes = ''GET /?user=a'', clock = 5, junk = [],
             sigpipe = False\<rparr>"
  let ?R = "\<lambda>(s :: 32 word) k. unat s + k"
  note a = accept_loop_sequential[of 7 ?R "srand 1" ?f "[?k]"]
  note b = accept_loop_sequential[of 7 ?R "srand 1" ?k "[]"]
  note a' = accept_loop_sequential[of 7 ?R "srand 1" ?f' "[?k']"]
  note b' = accept_loop_sequential[of 7 ?R "srand 1" ?k' "[]"]
  have q: "param_value ''q='' ''default'' (request_text ''GET /?q=a'') = ''a''"
    by (simp add: request_text_def NUL_def param_value_def param_char_def sublist_Cons_right)
  have r: "search_reply 7 ?k
             = Some (http_response (length (search_json ''a'' 7 5)) (search_json ''a'' 7 5))"
    using search_reply_eq[of 7 ?k] by (simp add: q)
  have 1: "search_loop 7 [?k]
             = Some ([Accept 4, Recv 4,
                      Send 4 (http_response (length (search_json ''a'' 7 5))
                                (search_json ''a'' 7 5)), Close 4], Loop)"
    using b r by simp
  have 2: "search_loop 7 [?f, ?k]
             = Some ([Accept (- 1), Accept 4, Recv 4,
                      Send 4 (http_response (length (search_json ''a'' 7 5))
                                (search_json ''a'' 7 5)), Close 4], Loop)"
    using a 1 by simp
  have 3: "\<exists>r. auth_loop ?R 7 (srand 1) [?k']
             = Some ([Accept 4, Recv 4, Send 4 r, Close 4], (srand 1)\<lparr>calls := 32\<rparr>, Loop)"
    using b' by (auto simp add: srand_def simp del: auth_loop.simps(2) search_loop.simps(2))
  have 4: "\<exists>r. auth_loop ?R 7 (srand 1) [?f', ?k']
             = Some ([Accept (- 1), Accept 4, Recv 4, Send 4 r, Close 4],
                     (srand 1)\<lparr>calls := 32\<rparr>, Loop)"
    using a' 3 by (auto simp del: auth_loop.simps(2) search_loop.simps(2))
  from 2 4 show ?thesis by blast
qed

text \<open>
  C7 as stated fails when the peer has reset the connection before the reply is sent:
  the first connection is accepted and read, \<^verbatim>\<open>send\<close> ends the process, the descriptor
  4 is never closed, and the second connection is never accepted.
\<close>

theorem sigpipe_ends_loop_counterexample:
  "search_loop 7 [\<lparr>accept_ret = 4, peer_bytes = ''GET /?q=a'', clock = 5, junk = [],
                    sigpipe = True\<rparr>,
                  \<lparr>accept_ret = 5, peer_bytes = ''GET /?q=b'', clock = 6, junk = [],
                    sigpipe = False\<rparr>]
     = Some ([Accept 4, Recv 4,
              Send 4 (http_response (length (search_json ''a'' 7 5)) (search_json ''a'' 7 5))],
             Killed)"
proof -
  let ?k = "\<lparr>accept_ret = 4, peer_bytes = ''GET /?q=a'', clock = 5, junk = [],
             sigpipe = True\<rparr>"
  have q: "param_value ''q='' ''default'' (request_text ''GET /?q=a'') = ''a''"
    by (simp add: request_text_def NUL_def param_value_def param_char_def sublist_Cons_right)
  have r: "search_reply 7 ?k
             = Some (http_response (length (search_json ''a'' 7 5)) (search_json ''a'' 7 5))"
    using search_reply_eq[of 7 ?k] by (simp add: q)
  show ?thesis by (simp add: search_iteration_def r)
qed



end
